theory Spec2Isabelle
  imports Complex_Main
begin

section \<open>Numbers\<close>

text \<open>
  A JavaScript number is an IEEE 754 double: a finite value, \<open>Infinity\<close>,
  \<open>-Infinity\<close> or \<open>NaN\<close>. A finite value is held as the rational it stands for; every
  arithmetic result is rounded to a double by \<open>to_double\<close>, to nearest with ties to even,
  and to an infinity when it leaves the range. The sign of zero is not modelled: a zero
  divisor counts as \<open>+0\<close>.
\<close>

datatype jsnum = Fin rat | PInf | NInf | NaN

fun is_fin :: "jsnum \<Rightarrow> bool" where
  "is_fin (Fin a) = True"
| "is_fin _ = False"

fun isNaN :: "jsnum \<Rightarrow> bool" where
  "isNaN NaN = True"
| "isNaN _ = False"

definition inf_of :: "bool \<Rightarrow> jsnum" where
  "inf_of negative = (if negative then NInf else PInf)"

text \<open>
  Rounding. \<open>round_even\<close> rounds a rational to the nearest integer, a tie to the even
  one. A double in the binade from \<open>2^k\<close> to \<open>2^(k+1)\<close> is a multiple of \<open>2^(k-52)\<close>,
  and of \<open>2^(-1074)\<close> below \<open>2^(-1022)\<close>; \<open>ulp_index 2045 a - 1074\<close> is that exponent
  for \<open>a\<close>, with the largest binade, \<open>k = 1023\<close>, for everything above it. A result of
  \<open>2^1024\<close> or more is an overflow.
\<close>

definition round_even :: "rat \<Rightarrow> int" where
  "round_even x =
     (let f = \<lfloor>x\<rfloor>; r = x - of_int f
      in if r < 1 / 2 then f else if 1 / 2 < r then f + 1 else if even f then f else f + 1)"

fun ulp_index :: "nat \<Rightarrow> rat \<Rightarrow> nat" where
  "ulp_index 0 a = 0"
| "ulp_index (Suc n) a = (if 2 powi (int (Suc n) - 1022) \<le> a then Suc n else ulp_index n a)"

definition to_double :: "rat \<Rightarrow> jsnum" where
  "to_double q =
     (if q = 0 then Fin 0
      else
        (let a = \<bar>q\<bar>;
             e = int (ulp_index 2045 a) - 1074;
             v = of_int (round_even (a / 2 powi e)) * 2 powi e
         in if 2 ^ 1024 \<le> v then inf_of (q < 0)
            else Fin (if q < 0 then - v else v)))"

fun jneg :: "jsnum \<Rightarrow> jsnum" where
  "jneg (Fin a) = Fin (- a)"
| "jneg PInf = NInf"
| "jneg NInf = PInf"
| "jneg NaN = NaN"

fun jadd :: "jsnum \<Rightarrow> jsnum \<Rightarrow> jsnum" where
  "jadd NaN _ = NaN"
| "jadd _ NaN = NaN"
| "jadd (Fin a) (Fin b) = to_double (a + b)"
| "jadd PInf NInf = NaN"
| "jadd NInf PInf = NaN"
| "jadd PInf _ = PInf"
| "jadd _ PInf = PInf"
| "jadd NInf _ = NInf"
| "jadd _ NInf = NInf"

definition jsub :: "jsnum \<Rightarrow> jsnum \<Rightarrow> jsnum" where
  "jsub a b = jadd a (jneg b)"

text \<open>The sign of an infinite product or quotient; \<open>True\<close> is negative.\<close>

fun jsign :: "jsnum \<Rightarrow> bool" where
  "jsign (Fin a) = (a < 0)"
| "jsign NInf = True"
| "jsign _ = False"

fun jmul :: "jsnum \<Rightarrow> jsnum \<Rightarrow> jsnum" where
  "jmul NaN _ = NaN"
| "jmul _ NaN = NaN"
| "jmul (Fin a) (Fin b) = to_double (a * b)"
| "jmul (Fin a) y = (if a = 0 then NaN else inf_of (jsign (Fin a) \<noteq> jsign y))"
| "jmul x (Fin b) = (if b = 0 then NaN else inf_of (jsign x \<noteq> jsign (Fin b)))"
| "jmul x y = inf_of (jsign x \<noteq> jsign y)"

fun jdiv :: "jsnum \<Rightarrow> jsnum \<Rightarrow> jsnum" where
  "jdiv NaN _ = NaN"
| "jdiv _ NaN = NaN"
| "jdiv (Fin a) (Fin b) =
     (if b \<noteq> 0 then to_double (a / b) else if a = 0 then NaN else inf_of (a < 0))"
| "jdiv (Fin a) y = Fin 0"
| "jdiv x (Fin b) = inf_of (jsign x \<noteq> jsign (Fin b))"
| "jdiv x y = NaN"

text \<open>The comparisons \<open><\<close>, \<open>>\<close>, \<open><=\<close>: false as soon as one side is NaN.\<close>

fun jlt :: "jsnum \<Rightarrow> jsnum \<Rightarrow> bool" where
  "jlt NaN _ = False"
| "jlt _ NaN = False"
| "jlt (Fin a) (Fin b) = (a < b)"
| "jlt (Fin a) PInf = True"
| "jlt NInf (Fin b) = True"
| "jlt NInf PInf = True"
| "jlt _ _ = False"

definition jgt :: "jsnum \<Rightarrow> jsnum \<Rightarrow> bool" where
  "jgt a b = jlt b a"

definition jle :: "jsnum \<Rightarrow> jsnum \<Rightarrow> bool" where
  "jle a b = (\<not> isNaN a \<and> \<not> isNaN b \<and> (a = b \<or> jlt a b))"

text \<open>\<open>Math.max\<close> and \<open>Math.min\<close> of two arguments: NaN if one of them is.\<close>

definition jmax :: "jsnum \<Rightarrow> jsnum \<Rightarrow> jsnum" where
  "jmax a b = (if isNaN a \<or> isNaN b then NaN else if jlt a b then b else a)"

definition jmin :: "jsnum \<Rightarrow> jsnum \<Rightarrow> jsnum" where
  "jmin a b = (if isNaN a \<or> isNaN b then NaN else if jlt b a then b else a)"

text \<open>\<open>a == b\<close> on numbers: NaN equals nothing, itself included.\<close>

definition js_eq :: "jsnum \<Rightarrow> jsnum \<Rightarrow> bool" where
  "js_eq a b = (\<not> isNaN a \<and> \<not> isNaN b \<and> a = b)"

text \<open>\<open>v || 0\<close> on a number: NaN and zero are falsy.\<close>

definition num_or_zero :: "jsnum \<Rightarrow> jsnum" where
  "num_or_zero v = (if isNaN v \<or> v = Fin 0 then Fin 0 else v)"

text \<open>
  Two properties of a number used below: \<open>magnitude_le k v\<close>, \<open>v\<close> is finite
  and at most \<open>2^k\<close> in absolute value; \<open>integer_valued v\<close>, \<open>v\<close> is an
  integer when it is finite.
\<close>

definition magnitude_le :: "nat \<Rightarrow> jsnum \<Rightarrow> bool" where
  "magnitude_le k v = (case v of Fin q \<Rightarrow> \<bar>q\<bar> \<le> 2 ^ k | _ \<Rightarrow> False)"

definition integer_valued :: "jsnum \<Rightarrow> bool" where
  "integer_valued v = (case v of Fin q \<Rightarrow> of_int \<lfloor>q\<rfloor> = q | _ \<Rightarrow> True)"

section \<open>Strings and the shape parser of paramcalc.js\<close>

text \<open>
  A JavaScript string is a sequence of UTF-16 code units; the regular expressions of
  paramcalc.js carry no \<open>u\<close> flag and so work on code units. A code unit is modelled as
  a natural number and a string as a list of them. \<open>js\<close> turns a literal into such a list.
\<close>

type_synonym jschar = nat
type_synonym jsstring = "jschar list"

definition js :: "string \<Rightarrow> jsstring" where
  "js s = map of_char s"

abbreviation (input) LF :: jschar where "LF \<equiv> 10"
abbreviation (input) CR :: jschar where "CR \<equiv> 13"
abbreviation (input) APOSTROPHE :: jschar where "APOSTROPHE \<equiv> 39"
abbreviation (input) PLUS :: jschar where "PLUS \<equiv> 43"
abbreviation (input) COMMA :: jschar where "COMMA \<equiv> 44"
abbreviation (input) MINUS :: jschar where "MINUS \<equiv> 45"
abbreviation (input) LBRACKET :: jschar where "LBRACKET \<equiv> 91"
abbreviation (input) RBRACKET :: jschar where "RBRACKET \<equiv> 93"
abbreviation (input) UNDERSCORE :: jschar where "UNDERSCORE \<equiv> 95"

text \<open>
  The class \<open>\s\<close> of a regular expression, which is also what \<open>trim\<close> and \<open>parseInt\<close>
  strip: the WhiteSpace and LineTerminator code points of ECMAScript (TAB, LF, VT, FF, CR,
  SP, NBSP, U+1680, U+2000..U+200A, LS, PS, U+202F, U+205F, U+3000, U+FEFF).
\<close>

definition is_ws :: "jschar \<Rightarrow> bool" where
  "is_ws c = ((9 \<le> c \<and> c \<le> 13) \<or> c = 32 \<or> c = 160 \<or> c = 5760 \<or> (8192 \<le> c \<and> c \<le> 8202)
     \<or> c = 8232 \<or> c = 8233 \<or> c = 8239 \<or> c = 8287 \<or> c = 12288 \<or> c = 65279)"

text \<open>The code units that \<open>.\<close> refuses: LF, CR, U+2028, U+2029.\<close>

definition is_line_term :: "jschar \<Rightarrow> bool" where
  "is_line_term c = (c = LF \<or> c = CR \<or> c = 8232 \<or> c = 8233)"

definition is_digit :: "jschar \<Rightarrow> bool" where
  "is_digit c = (48 \<le> c \<and> c \<le> 57)"

text \<open>\<open>String.prototype.trim\<close>.\<close>

definition trim :: "jsstring \<Rightarrow> jsstring" where
  "trim s = rev (dropWhile is_ws (rev (dropWhile is_ws s)))"

text \<open>
  \<open>normalizeNumStr\<close>: the first \<open>replace\<close> deletes every code unit of
  the class of U+00A0, U+202F, U+2009, white space and underscore, the second every comma
  and apostrophe.
\<close>

definition normalizeNumStr :: "jsstring \<Rightarrow> jsstring" where
  "normalizeNumStr s =
     filter (\<lambda>c. \<not> (c = COMMA \<or> c = APOSTROPHE))
       (filter (\<lambda>c. \<not> (c = 160 \<or> c = 8239 \<or> c = 8201 \<or> is_ws c \<or> c = UNDERSCORE)) s)"

text \<open>
  \<open>parseInt(s, 10)\<close>: leading white space is skipped, one sign is read, and the longest
  run of decimal digits that follows is read as an integer, \<open>dec_value\<close>; the result is
  the double of that integer, so it is rounded above \<open>2^53\<close> and is \<open>Infinity\<close> from
  about 309 digits on. With no digit there the result is NaN.
\<close>

definition dec_value :: "jsstring \<Rightarrow> int" where
  "dec_value ds = foldl (\<lambda>a c. 10 * a + int (c - 48)) 0 ds"

definition parseInt10 :: "jsstring \<Rightarrow> jsnum" where
  "parseInt10 s =
     (let s1 = dropWhile is_ws s;
          neg = (s1 \<noteq> [] \<and> hd s1 = MINUS);
          s2 = (if s1 \<noteq> [] \<and> (hd s1 = MINUS \<or> hd s1 = PLUS) then tl s1 else s1);
          ds = takeWhile is_digit s2
      in if ds = [] then NaN
         else to_double (of_int (if neg then - dec_value ds else dec_value ds)))"

text \<open>
  The callback of \<open>map\<close> in \<open>parseShapeGroup\<close>:
  \<open>t ? parseInt(t, 10) : NaN\<close>, then \<open>Number.isFinite(v) ? v : 0\<close>.
\<close>

definition dim_value :: "jsstring \<Rightarrow> jsnum" where
  "dim_value d =
     (let t = normalizeNumStr d;
          v = (if t \<noteq> [] then parseInt10 t else NaN)
      in if is_fin v then v else Fin 0)"

text \<open>
  \<open>content.split(/\s*,\s*/)\<close>. \<open>sep_match s\<close> is the regular expression anchored
  at the head of \<open>s\<close>: white space, a comma, white space again (greedy, and nothing after
  it can make it give any back); it returns what follows the match. \<open>split_commas\<close> is
  the split loop: at each position the match is tried; where it succeeds the piece read so
  far is emitted and the scan goes on after the match, where it fails the scan moves one
  code unit on. The end of the string closes the last piece.
\<close>

definition sep_match :: "jsstring \<Rightarrow> jsstring option" where
  "sep_match s =
     (case dropWhile is_ws s of
        [] \<Rightarrow> None
      | c # r \<Rightarrow> if c = COMMA then Some (dropWhile is_ws r) else None)"

lemma sep_match_shorter: "sep_match s = Some r \<Longrightarrow> length r < length s"
proof -
  assume a: "sep_match s = Some r"
  then obtain c t where d: "dropWhile is_ws s = c # t" and r: "r = dropWhile is_ws t"
    by (auto simp: sep_match_def split: list.splits if_splits)
  have "length r \<le> length t" using r by (simp add: length_dropWhile_le)
  moreover have "length (c # t) \<le> length s" using d length_dropWhile_le [of is_ws s] by simp
  ultimately show ?thesis by simp
qed

function split_from :: "jsstring \<Rightarrow> jsstring \<Rightarrow> jsstring list" where
  "split_from piece s =
     (case sep_match s of
        Some r \<Rightarrow> rev piece # split_from [] r
      | None \<Rightarrow> (case s of [] \<Rightarrow> [rev piece] | c # cs \<Rightarrow> split_from (c # piece) cs))"
  by pat_completeness auto
termination
  by (relation "measure (\<lambda>(piece, s). length s)") (auto simp: sep_match_shorter)

declare split_from.simps [simp del]

definition split_commas :: "jsstring \<Rightarrow> jsstring list" where
  "split_commas s = split_from [] s"

text \<open>
  The two \<open>replace\<close> calls that cut the content out of a group.
  \<open>/^[^\[]*\[/\<close> deletes everything up to and including the first \<open>[\<close>, if there is
  one. \<open>/\].*$/\<close> deletes from the first \<open>]\<close> that no line terminator follows
  (\<open>.\<close> does not cross one and \<open>$\<close> is the end of the string).
\<close>

definition strip_to_lbracket :: "jsstring \<Rightarrow> jsstring" where
  "strip_to_lbracket s =
     (case dropWhile (\<lambda>c. c \<noteq> LBRACKET) s of [] \<Rightarrow> s | c # r \<Rightarrow> r)"

fun strip_from_rbracket :: "jsstring \<Rightarrow> jsstring" where
  "strip_from_rbracket [] = []"
| "strip_from_rbracket (c # cs) =
     (if c = RBRACKET \<and> list_all (\<lambda>d. \<not> is_line_term d) cs then []
      else c # strip_from_rbracket cs)"

definition group_content :: "jsstring \<Rightarrow> jsstring" where
  "group_content g = strip_from_rbracket (strip_to_lbracket g)"

definition group_dims :: "jsstring \<Rightarrow> jsnum list" where
  "group_dims content = map dim_value (filter (\<lambda>d. d \<noteq> []) (split_commas content))"

definition parseShapeGroup :: "jsstring \<Rightarrow> jsnum" where
  "parseShapeGroup g =
     (let dims = group_dims (group_content g)
      in if length dims = 0 then Fin 0 else foldl (\<lambda>a b. jmul a b) (Fin 1) dims)"

text \<open>
  \<open>String(text).split(/\r?\n/)\<close>, the same loop with the separator \<open>\r?\n\<close>.
\<close>

definition nl_match :: "jsstring \<Rightarrow> jsstring option" where
  "nl_match s =
     (case s of
        [] \<Rightarrow> None
      | c # r \<Rightarrow>
          if c = CR \<and> r \<noteq> [] \<and> hd r = LF then Some (tl r)
          else if c = LF then Some r
          else None)"

lemma nl_match_shorter: "nl_match s = Some r \<Longrightarrow> length r < length s"
  by (cases s) (auto simp: nl_match_def split: if_splits)

function lines_from :: "jsstring \<Rightarrow> jsstring \<Rightarrow> jsstring list" where
  "lines_from piece s =
     (case nl_match s of
        Some r \<Rightarrow> rev piece # lines_from [] r
      | None \<Rightarrow> (case s of [] \<Rightarrow> [rev piece] | c # cs \<Rightarrow> lines_from (c # piece) cs))"
  by pat_completeness auto
termination
  by (relation "measure (\<lambda>(piece, s). length s)") (auto simp: nl_match_shorter)

declare lines_from.simps [simp del]

definition split_lines :: "jsstring \<Rightarrow> jsstring list" where
  "split_lines s = lines_from [] s"

text \<open>
  \<open>line.match(/\[[^\]]*\]/g)\<close>: \<open>group_match s\<close> is the expression anchored at the
  head of \<open>s\<close>, returning the matched group and the rest; \<open>match_groups\<close> collects the
  matches from left to right, each search starting where the last match ended. The empty
  list stands for the \<open>null\<close> that \<open>match\<close> returns when nothing matches.
\<close>

definition group_match :: "jsstring \<Rightarrow> (jsstring \<times> jsstring) option" where
  "group_match s =
     (case s of
        [] \<Rightarrow> None
      | c # r \<Rightarrow>
          if c = LBRACKET then
            (case dropWhile (\<lambda>d. d \<noteq> RBRACKET) r of
               [] \<Rightarrow> None
             | e # rest \<Rightarrow> Some (c # takeWhile (\<lambda>d. d \<noteq> RBRACKET) r @ [e], rest))
          else None)"

lemma group_match_shorter: "group_match s = Some (g, r) \<Longrightarrow> length r < length s"
proof -
  assume a: "group_match s = Some (g, r)"
  then obtain c t e where s: "s = c # t" and d: "dropWhile (\<lambda>d. d \<noteq> RBRACKET) t = e # r"
    by (auto simp: group_match_def split: list.splits if_splits)
  have "length (e # r) \<le> length t"
    using length_dropWhile_le [of "\<lambda>d. d \<noteq> RBRACKET" t] d by simp
  then show ?thesis using s by simp
qed

function match_groups :: "jsstring \<Rightarrow> jsstring list" where
  "match_groups s =
     (case group_match s of
        Some (g, r) \<Rightarrow> g # match_groups r
      | None \<Rightarrow> (case s of [] \<Rightarrow> [] | c # cs \<Rightarrow> match_groups cs))"
  by pat_completeness auto
termination
  by (relation "measure length") (auto simp: group_match_shorter)

declare match_groups.simps [simp del]

text \<open>
  \<open>sumShapes\<close>. The argument is a form value that may be missing (\<open>undefined\<close>),
  here \<open>None\<close>; \<open>!text\<close> holds for a missing and for an empty string. \<open>add_line\<close>
  is the body of the loop over the lines, from the running total \<open>tot\<close> to the next
  one: every group of the line is added to the total in turn.
\<close>

definition add_line :: "jsnum \<Rightarrow> jsstring \<Rightarrow> jsnum" where
  "add_line tot rawLine =
     (let line = trim rawLine
      in if line = [] then tot
         else (let groups = match_groups line
               in if groups \<noteq> []
                  then foldl (\<lambda>tot g. jadd tot (parseShapeGroup g)) tot groups
                  else jadd tot (parseShapeGroup ([LBRACKET] @ line @ [RBRACKET]))))"

definition sumShapes :: "jsstring option \<Rightarrow> jsnum" where
  "sumShapes text =
     (case text of
        None \<Rightarrow> Fin 0
      | Some t \<Rightarrow> if t = [] then Fin 0 else foldl add_line (Fin 0) (split_lines t))"

section \<open>The parameter calculator: computeResults\<close>

text \<open>
  The input record is what \<open>getFormData\<close> builds: text fields, which may be missing,
  and check boxes. The field \<open>total_layers\<close>, which \<open>computeResults\<close> does not
  read, is left out.
\<close>

record param_input =
  dense_layers :: "jsstring option"
  moe_layers :: "jsstring option"
  embedding_shapes :: "jsstring option"
  pre_first_norms :: "jsstring option"
  dense_norms :: "jsstring option"
  dense_attn :: "jsstring option"
  dense_ffn :: "jsstring option"
  experts_per_layer :: "jsstring option"
  active_experts :: "jsstring option"
  has_shared_expert :: bool
  shared_expert_scope :: "jsstring option"
  shared_expert_tensors :: "jsstring option"
  moe_attn :: "jsstring option"
  moe_transitional :: "jsstring option"
  moe_shared_ffn :: "jsstring option"
  moe_experts :: "jsstring option"
  experts_include_dim :: bool

record param_result =
  denseLayers :: jsnum
  moeLayers :: jsnum
  expertsPer :: jsnum
  activeExperts :: jsnum
  expertsIncludeDim :: bool
  hasShared :: bool
  sharedScope :: jsstring
  embedCount :: jsnum
  preFirstCount :: jsnum
  dNorms :: jsnum
  dAttn :: jsnum
  dFfn :: jsnum
  dPerLayer :: jsnum
  mAttn :: jsnum
  mNormsTrans :: jsnum
  mSharedFfn :: jsnum
  mExpertsInput :: jsnum
  sharedExpertParams :: jsnum
  sharedPerLayer :: jsnum
  mAlwaysPerLayer :: jsnum
  denseTotal :: jsnum
  expertsPerLayerTotal :: jsnum
  moeExpertTotal :: jsnum
  sharedExpertTotal :: jsnum
  moeTotal :: jsnum
  totalParams :: jsnum
  denseActive :: jsnum
  activeExpertsClamped :: jsnum
  expertsActivePerLayer :: jsnum
  moeActive :: jsnum
  totalActive :: jsnum
  denseActivePct :: jsnum
  moeActivePct :: jsnum
  moeInactivePerToken :: jsnum
  totalMlp :: jsnum
  totalAttn :: jsnum
  moeAlwaysTotal :: jsnum
  totalAlwaysActive :: jsnum
  alwaysActivePct :: jsnum
  moeExpertsOnly :: jsnum
  moeExpertsPct :: jsnum
  totalLayersComputed :: jsnum

text \<open>\<open>x || d\<close> on a string that may be missing: the default for a missing or empty one.\<close>

definition str_or :: "jsstring option \<Rightarrow> jsstring \<Rightarrow> jsstring" where
  "str_or x d = (case x of None \<Rightarrow> d | Some t \<Rightarrow> if t = [] then d else t)"

text \<open>\<open>parseInt(x || '0', 10) || 0\<close>: NaN and zero both give zero.\<close>

definition int_field :: "jsstring option \<Rightarrow> jsnum" where
  "int_field x = num_or_zero (parseInt10 (str_or x (js ''0'')))"

definition computeResults :: "param_input \<Rightarrow> param_result" where
  "computeResults input =
    (let denseLayers = int_field (dense_layers input);
         moeLayers = int_field (moe_layers input);
         expertsPer = int_field (experts_per_layer input);
         activeExperts = int_field (active_experts input);
         expertsIncludeDim = experts_include_dim input;
         hasShared = has_shared_expert input;
         sharedScope = str_or (shared_expert_scope input) (js ''per_layer'');

         embedCount = sumShapes (embedding_shapes input);
         preFirstCount = sumShapes (pre_first_norms input);

         dNorms = sumShapes (dense_norms input);
         dAttn = sumShapes (dense_attn input);
         dFfn = sumShapes (dense_ffn input);
         dPerLayer = jadd (jadd dNorms dAttn) dFfn;

         mAttn = sumShapes (moe_attn input);
         mNormsTrans = sumShapes (moe_transitional input);
         mSharedFfn = sumShapes (moe_shared_ffn input);
         mExpertsInput = sumShapes (moe_experts input);

         sharedExpertParams =
           (if hasShared then sumShapes (shared_expert_tensors input) else Fin 0);
         sharedPerLayer =
           (if hasShared
            then (if sharedScope = js ''per_layer'' then sharedExpertParams
                  else (if jgt moeLayers (Fin 0) then jdiv sharedExpertParams moeLayers
                        else Fin 0))
            else Fin 0);

         mAlwaysPerLayer = jadd (jadd (jadd mNormsTrans mAttn) mSharedFfn) sharedPerLayer;

         denseTotal = jmul denseLayers dPerLayer;
         expertsPerLayerTotal =
           (if expertsIncludeDim then mExpertsInput else jmul mExpertsInput expertsPer);
         moeExpertTotal = jmul moeLayers expertsPerLayerTotal;
         sharedExpertTotal =
           (if hasShared
            then (if sharedScope = js ''per_layer'' then jmul moeLayers sharedExpertParams
                  else sharedExpertParams)
            else Fin 0);
         moeTotal = jadd (jmul moeLayers mAlwaysPerLayer) moeExpertTotal;
         totalParams = jadd (jadd (jadd embedCount preFirstCount) denseTotal) moeTotal;

         denseActive = jadd (jadd embedCount preFirstCount) denseTotal;
         activeExpertsClamped = jmax (Fin 0) (jmin activeExperts expertsPer);
         expertsActivePerLayer =
           (if expertsIncludeDim
            then (if jgt expertsPer (Fin 0)
                  then jmul mExpertsInput (jdiv activeExpertsClamped expertsPer)
                  else Fin 0)
            else jmul mExpertsInput activeExpertsClamped);
         moeActive = jmul moeLayers (jadd mAlwaysPerLayer expertsActivePerLayer);
         totalActive = jadd denseActive moeActive;

         denseActivePct =
           (if jgt totalActive (Fin 0) then jdiv (jmul (Fin 100) denseActive) totalActive
            else Fin 0);
         moeActivePct =
           (if jgt totalActive (Fin 0) then jdiv (jmul (Fin 100) moeActive) totalActive
            else Fin 0);
         moeInactivePerToken =
           jmul moeLayers (jmax (Fin 0) (jsub expertsPerLayerTotal expertsActivePerLayer));
         totalMlp =
           jadd (jadd (jmul denseLayers dFfn)
                      (jmul moeLayers (jadd mSharedFfn expertsPerLayerTotal)))
                sharedExpertTotal;
         totalAttn = jadd (jmul denseLayers dAttn) (jmul moeLayers mAttn);

         moeAlwaysTotal = jmul moeLayers mAlwaysPerLayer;
         totalAlwaysActive = jadd denseActive moeAlwaysTotal;
         alwaysActivePct =
           (if jgt totalActive (Fin 0) then jdiv (jmul (Fin 100) totalAlwaysActive) totalActive
            else Fin 0);
         moeExpertsOnly = jmax (Fin 0) (jsub moeActive moeAlwaysTotal);
         moeExpertsPct =
           (if jgt totalActive (Fin 0) then jdiv (jmul (Fin 100) moeExpertsOnly) totalActive
            else Fin 0)
     in \<lparr> denseLayers = denseLayers, moeLayers = moeLayers, expertsPer = expertsPer,
          activeExperts = activeExperts, expertsIncludeDim = expertsIncludeDim,
          hasShared = hasShared, sharedScope = sharedScope,
          embedCount = embedCount, preFirstCount = preFirstCount, dNorms = dNorms,
          dAttn = dAttn, dFfn = dFfn, dPerLayer = dPerLayer,
          mAttn = mAttn, mNormsTrans = mNormsTrans, mSharedFfn = mSharedFfn,
          mExpertsInput = mExpertsInput,
          sharedExpertParams = sharedExpertParams, sharedPerLayer = sharedPerLayer,
          mAlwaysPerLayer = mAlwaysPerLayer,
          denseTotal = denseTotal, expertsPerLayerTotal = expertsPerLayerTotal,
          moeExpertTotal = moeExpertTotal, sharedExpertTotal = sharedExpertTotal,
          moeTotal = moeTotal, totalParams = totalParams,
          denseActive = denseActive, activeExpertsClamped = activeExpertsClamped,
          expertsActivePerLayer = expertsActivePerLayer, moeActive = moeActive,
          totalActive = totalActive,
          denseActivePct = denseActivePct, moeActivePct = moeActivePct,
          moeInactivePerToken = moeInactivePerToken, totalMlp = totalMlp,
          totalAttn = totalAttn,
          moeAlwaysTotal = moeAlwaysTotal, totalAlwaysActive = totalAlwaysActive,
          alwaysActivePct = alwaysActivePct, moeExpertsOnly = moeExpertsOnly,
          moeExpertsPct = moeExpertsPct,
          totalLayersComputed = jadd denseLayers moeLayers \<rparr>)"

text \<open>The numeric fields of a result, in the order of the returned object.\<close>

definition numeric_fields :: "param_result \<Rightarrow> jsnum list" where
  "numeric_fields r =
     [denseLayers r, moeLayers r, expertsPer r, activeExperts r,
      embedCount r, preFirstCount r, dNorms r, dAttn r, dFfn r, dPerLayer r,
      mAttn r, mNormsTrans r, mSharedFfn r, mExpertsInput r,
      sharedExpertParams r, sharedPerLayer r, mAlwaysPerLayer r,
      denseTotal r, expertsPerLayerTotal r, moeExpertTotal r, sharedExpertTotal r,
      moeTotal r, totalParams r,
      denseActive r, activeExpertsClamped r, expertsActivePerLayer r, moeActive r,
      totalActive r,
      denseActivePct r, moeActivePct r, moeInactivePerToken r, totalMlp r, totalAttn r,
      moeAlwaysTotal r, totalAlwaysActive r, alwaysActivePct r, moeExpertsOnly r,
      moeExpertsPct r, totalLayersComputed r]"

text \<open>
  What \<open>computeResults\<close> parses from the form: the four counts and the ten shape
  sums. An input is moderate when each of them is at most \<open>2^300\<close> in absolute
  value; then no sum or product of \<open>computeResults\<close> leaves the range of the
  doubles.
\<close>

definition parsed_values :: "param_input \<Rightarrow> jsnum list" where
  "parsed_values input =
     [int_field (dense_layers input), int_field (moe_layers input),
      int_field (experts_per_layer input), int_field (active_experts input),
      sumShapes (embedding_shapes input), sumShapes (pre_first_norms input),
      sumShapes (dense_norms input), sumShapes (dense_attn input),
      sumShapes (dense_ffn input), sumShapes (moe_attn input),
      sumShapes (moe_transitional input), sumShapes (moe_shared_ffn input),
      sumShapes (moe_experts input),
      (if has_shared_expert input then sumShapes (shared_expert_tensors input) else Fin 0)]"

definition moderate :: "param_input \<Rightarrow> bool" where
  "moderate input = list_all (magnitude_le 300) (parsed_values input)"

section \<open>The speed calculator: calculate of script.js\<close>

text \<open>
  \<open>calculate\<close> reads the form with \<open>parseFloat\<close> and \<open>parseInt\<close>; the record
  holds what these return for each field, NaN for an empty or non-numeric one. The fields
  are named after the form elements. The function either shows the validation message or
  derives the values that the result rows display.
\<close>

record speed_input =
  gpu1_vram :: jsnum
  gpu1_bw :: jsnum
  gpu2_vram :: jsnum
  gpu2_bw :: jsnum
  system_bw :: jsnum
  total_params :: jsnum
  dense_params :: jsnum
  moe_params :: jsnum
  kv_cache :: jsnum
  quantization :: jsnum

record speed_result =
  totalMoeParams :: jsnum
  bytesPerParam :: jsnum
  denseSizeGB :: jsnum
  denseKvGB :: jsnum
  fitsOnGpu1 :: bool
  denseLoadMs :: jsnum
  moeTotalGB :: jsnum
  moeShare :: jsnum
  activeMoeSizeGB :: jsnum
  gpu2MoeMs :: jsnum
  systemShare :: jsnum
  systemMoeMs :: jsnum
  totalMsPerToken :: jsnum
  tokensPerSec :: jsnum

datatype calc_error = FillInAllFields

text \<open>
  The part of \<open>calculate\<close> after the validation, from \<open>// Derived values\<close> to the
  throughput.
\<close>

definition derived_values :: "speed_input \<Rightarrow> speed_result" where
  "derived_values inp =
    (let gpu1Vram = gpu1_vram inp;
         gpu1Bw = gpu1_bw inp;
         gpu2Vram = gpu2_vram inp;
         gpu2Bw = gpu2_bw inp;
         systemBw = system_bw inp;
         totalParams = total_params inp;
         denseParams = dense_params inp;
         activeMoeParams = moe_params inp;
         kvCache = num_or_zero (kv_cache inp);
         quantBits = quantization inp;

         totalMoeParams = jmax (jsub totalParams denseParams) (Fin 0);
         bytesPerParam = jdiv quantBits (Fin 8);
         denseSizeGB = jdiv (jmul denseParams bytesPerParam) (Fin 1000000000);
         denseKvGB = jadd denseSizeGB kvCache;
         fitsOnGpu1 = jle denseKvGB gpu1Vram;
         denseLoadMs =
           (if jgt gpu1Bw (Fin 0) then jmul (jdiv denseKvGB gpu1Bw) (Fin 1000) else PInf);
         moeTotalGB = jdiv (jmul totalMoeParams bytesPerParam) (Fin 1000000000);
         moeShare =
           (if jgt moeTotalGB (Fin 0) \<and> jgt gpu2Vram (Fin 0)
            then jmin (Fin 1) (jdiv gpu2Vram moeTotalGB) else Fin 0);
         activeMoeSizeGB = jdiv (jmul activeMoeParams bytesPerParam) (Fin 1000000000);
         gpu2MoeMs =
           (if jgt gpu2Bw (Fin 0)
            then jmul (jdiv (jmul moeShare activeMoeSizeGB) gpu2Bw) (Fin 1000) else PInf);
         systemShare = jsub (Fin 1) moeShare;
         systemMoeMs =
           (if jgt systemBw (Fin 0)
            then jmul (jdiv (jmul systemShare activeMoeSizeGB) systemBw) (Fin 1000)
            else PInf);
         totalMsPerToken = jadd (jadd denseLoadMs gpu2MoeMs) systemMoeMs;
         tokensPerSec =
           (if jgt totalMsPerToken (Fin 0) then jdiv (Fin 1000) totalMsPerToken else Fin 0)
     in \<lparr> totalMoeParams = totalMoeParams, bytesPerParam = bytesPerParam,
          denseSizeGB = denseSizeGB, denseKvGB = denseKvGB, fitsOnGpu1 = fitsOnGpu1,
          denseLoadMs = denseLoadMs, moeTotalGB = moeTotalGB, moeShare = moeShare,
          activeMoeSizeGB = activeMoeSizeGB, gpu2MoeMs = gpu2MoeMs,
          systemShare = systemShare, systemMoeMs = systemMoeMs,
          totalMsPerToken = totalMsPerToken, tokensPerSec = tokensPerSec \<rparr>)"

text \<open>
  \<open>calculate\<close>: the validation of the eight required fields, which returns early with
  the message, then the derived values.
\<close>

definition calculate :: "speed_input \<Rightarrow> calc_error + speed_result" where
  "calculate inp =
    (let gpu1Vram = gpu1_vram inp;
         gpu1Bw = gpu1_bw inp;
         gpu2Vram = gpu2_vram inp;
         gpu2Bw = gpu2_bw inp;
         systemBw = system_bw inp;
         totalParams = total_params inp;
         denseParams = dense_params inp;
         activeMoeParams = moe_params inp
     in if list_ex (\<lambda>v. isNaN v \<or> jlt v (Fin 0))
             [gpu1Vram, gpu1Bw, gpu2Vram, gpu2Bw, systemBw, totalParams, denseParams,
              activeMoeParams]
        then Inl FillInAllFields
        else Inr (derived_values inp))"

text \<open>The required fields, in the order of the validation, and what makes one invalid.\<close>

definition required_fields :: "speed_input \<Rightarrow> jsnum list" where
  "required_fields inp =
     [gpu1_vram inp, gpu1_bw inp, gpu2_vram inp, gpu2_bw inp, system_bw inp,
      total_params inp, dense_params inp, moe_params inp]"

definition invalid_field :: "jsnum \<Rightarrow> bool" where
  "invalid_field v = (isNaN v \<or> jlt v (Fin 0))"

section \<open>Concrete inputs used below\<close>

definition empty_form :: param_input where
  "empty_form =
     \<lparr> dense_layers = None, moe_layers = None, embedding_shapes = None,
       pre_first_norms = None, dense_norms = None, dense_attn = None, dense_ffn = None,
       experts_per_layer = None, active_experts = None, has_shared_expert = False,
       shared_expert_scope = None, shared_expert_tensors = None, moe_attn = None,
       moe_transitional = None, moe_shared_ffn = None, moe_experts = None,
       experts_include_dim = False \<rparr>"

definition five_of_two :: param_input where
  "five_of_two =
     empty_form \<lparr> experts_per_layer := Some (js ''2''), active_experts := Some (js ''5'') \<rparr>"

text \<open>A small model: two dense layers, three MoE layers of eight experts, two active.\<close>

definition small_model :: param_input where
  "small_model =
     empty_form \<lparr> dense_layers := Some (js ''2''), moe_layers := Some (js ''3''),
       embedding_shapes := Some (js ''[10,4]''), dense_attn := Some (js ''[4,4]''),
       experts_per_layer := Some (js ''8''), active_experts := Some (js ''2''),
       moe_experts := Some (js ''[4,2]'') \<rparr>"

definition shared_total_no_moe :: param_input where
  "shared_total_no_moe =
     empty_form \<lparr> moe_layers := Some (js ''0''), has_shared_expert := True,
       shared_expert_scope := Some (js ''total''),
       shared_expert_tensors := Some (js ''[4,5]'') \<rparr>"

text \<open>
  A count of 310 digits, a one and 309 zeros: \<open>parseInt\<close> makes it \<open>Infinity\<close>.
\<close>

definition huge_count :: jsstring where
  "huge_count = 49 # replicate 309 48"

definition overflowing_dense_form :: param_input where
  "overflowing_dense_form = empty_form \<lparr> dense_layers := Some huge_count \<rparr>"

definition shared_total_overflow :: param_input where
  "shared_total_overflow = shared_total_no_moe \<lparr> dense_layers := Some huge_count \<rparr>"


text \<open>
  Active MoE parameters of \<open>2^1023\<close>, about \<open>9e307\<close>, at 16 bits: their size in
  bytes overflows. There is no second GPU and the system bandwidth is zero.
\<close>

definition overflowing_moe :: speed_input where
  "overflowing_moe =
     \<lparr> gpu1_vram = Fin 24, gpu1_bw = Fin 1008, gpu2_vram = Fin 0, gpu2_bw = Fin 1008,
       system_bw = Fin 0, total_params = Fin 0, dense_params = Fin 0,
       moe_params = Fin (2 ^ 1023), kv_cache = Fin 0, quantization = Fin 16 \<rparr>"

definition no_bandwidth :: speed_input where
  "no_bandwidth =
     \<lparr> gpu1_vram = Fin 24, gpu1_bw = Fin 0, gpu2_vram = Fin 24, gpu2_bw = Fin 0,
       system_bw = Fin 0, total_params = Fin 100000000000,
       dense_params = Fin 10000000000, moe_params = Fin 5000000000, kv_cache = Fin 1,
       quantization = Fin 4 \<rparr>"

definition bandwidth_missing :: speed_input where
  "bandwidth_missing =
     \<lparr> gpu1_vram = Fin 24, gpu1_bw = NaN, gpu2_vram = Fin 24, gpu2_bw = Fin 1008,
       system_bw = Fin 100, total_params = Fin 100000000000,
       dense_params = Fin 10000000000, moe_params = Fin 5000000000, kv_cache = Fin 1,
       quantization = Fin 4 \<rparr>"

definition nothing_to_load :: speed_input where
  "nothing_to_load =
     \<lparr> gpu1_vram = Fin 24, gpu1_bw = Fin 1008, gpu2_vram = Fin 24, gpu2_bw = Fin 1008,
       system_bw = Fin 100, total_params = Fin 0, dense_params = Fin 0, moe_params = Fin 0,
       kv_cache = Fin 0, quantization = Fin 4 \<rparr>"

section \<open>Well-formed shape texts\<close>

text \<open>
  The texts that the claims on \<open>sumShapes\<close> speak of, built from their parts. A
  dimension token is a run of decimal digits in which and around which the separators
  that \<open>normalizeNumStr\<close> removes may stand (white space, underscore, apostrophe), as
  in \<open>1'000\<close> or after the comma of \<open>[163840, 7168]\<close>; it holds no comma, bracket or
  line break. A group is \<open>[\<close>, its tokens separated by commas, \<open>]\<close>. A line is
  either bracketed, any text without \<open>[\<close> followed by groups, each followed by any text
  without \<open>[\<close>, or bare, tokens separated by commas and no bracket at all. A text is
  its lines separated by line feeds.
\<close>

definition is_number_token :: "jsstring \<Rightarrow> bool" where
  "is_number_token t = (t \<noteq> [] \<and> list_all is_digit t)"

definition is_dim_token :: "jsstring \<Rightarrow> bool" where
  "is_dim_token t =
     (is_number_token (normalizeNumStr t) \<and>
      list_all (\<lambda>c. c \<noteq> COMMA \<and> c \<noteq> LBRACKET \<and> c \<noteq> RBRACKET \<and> c \<noteq> LF \<and> c \<noteq> CR) t)"

definition is_filler :: "jsstring \<Rightarrow> bool" where
  "is_filler f = list_all (\<lambda>c. c \<noteq> LBRACKET \<and> c \<noteq> LF \<and> c \<noteq> CR) f"

fun join_with :: "jschar \<Rightarrow> jsstring list \<Rightarrow> jsstring" where
  "join_with sep [] = []"
| "join_with sep [x] = x"
| "join_with sep (x # y # ys) = x @ sep # join_with sep (y # ys)"

definition group_text :: "jsstring list \<Rightarrow> jsstring" where
  "group_text g = [LBRACKET] @ join_with COMMA g @ [RBRACKET]"

datatype shape_line =
  Bracketed jsstring "(jsstring list \<times> jsstring) list"
| Bare "jsstring list"

fun line_text :: "shape_line \<Rightarrow> jsstring" where
  "line_text (Bracketed lead items) = lead @ concat (map (\<lambda>(g, f). group_text g @ f) items)"
| "line_text (Bare toks) = join_with COMMA toks"

fun line_groups :: "shape_line \<Rightarrow> jsstring list list" where
  "line_groups (Bracketed lead items) = map fst items"
| "line_groups (Bare toks) = [toks]"

fun is_shape_line :: "shape_line \<Rightarrow> bool" where
  "is_shape_line (Bracketed lead items) =
     (is_filler lead \<and> (items = [] \<longrightarrow> list_all is_ws lead) \<and>
      list_all (\<lambda>(g, f). list_all is_dim_token g \<and> is_filler f) items)"
| "is_shape_line (Bare toks) = (toks \<noteq> [] \<and> list_all is_dim_token toks)"

definition shape_text :: "shape_line list \<Rightarrow> jsstring" where
  "shape_text ls = join_with LF (map line_text ls)"

text \<open>
  The dimension that a token denotes, as a double; one too large for a finite double
  counts as zero. The product of a group in double arithmetic, from the left as
  \<open>reduce\<close> takes it; a group without dimensions counts as zero.
\<close>

definition dimension :: "jsstring \<Rightarrow> jsnum" where
  "dimension t =
     (let v = to_double (of_int (dec_value (normalizeNumStr t)))
      in if is_fin v then v else Fin 0)"

definition group_product :: "jsstring list \<Rightarrow> jsnum" where
  "group_product g = (if g = [] then Fin 0 else foldl jmul (Fin 1) (map dimension g))"

text \<open>
  The sum of products in the words of the specification, in exact integer arithmetic:
  the dimensions of each group multiplied, the products summed over all groups.
\<close>

definition product_of_dimensions :: "jsstring list \<Rightarrow> int" where
  "product_of_dimensions g =
     (if g = [] then 0 else prod_list (map (\<lambda>t. dec_value (normalizeNumStr t)) g))"

definition sum_of_products :: "jsstring list list \<Rightarrow> int" where
  "sum_of_products gs = sum_list (map product_of_dimensions gs)"

definition positive_dimensions :: "jsstring list list \<Rightarrow> bool" where
  "positive_dimensions gs = list_all (list_all (\<lambda>t. 0 < dec_value (normalizeNumStr t))) gs"

text \<open>
  A well-formed integer token: after \<open>normalizeNumStr\<close> has removed the separators, an
  optional sign and then decimal digits only, at least one.
\<close>

definition well_formed_int :: "jsstring \<Rightarrow> bool" where
  "well_formed_int t =
     (let n = normalizeNumStr t;
          body = (if n \<noteq> [] \<and> (hd n = MINUS \<or> hd n = PLUS) then tl n else n)
      in body \<noteq> [] \<and> list_all is_digit body)"

section \<open>Lemmas on numbers\<close>

text \<open>What \<open>ulp_index\<close> finds: the largest index, up to \<open>n\<close>, whose binade starts at or below \<open>a\<close>.\<close>

lemma ulp_index_le: "ulp_index n a \<le> n"
  by (induction n) auto

lemma ulp_index_lower: "0 < ulp_index n a \<Longrightarrow> 2 powi (int (ulp_index n a) - 1022) \<le> a"
  by (induction n) (auto split: if_splits)

lemma ulp_index_upper: "ulp_index n a < j \<Longrightarrow> j \<le> n \<Longrightarrow> a < 2 powi (int j - 1022)"
proof (induction n)
  case 0
  then show ?case by simp
next
  case (Suc n)
  show ?case
  proof (cases "2 powi (int (Suc n) - 1022) \<le> a")
    case True
    then show ?thesis using Suc.prems by simp
  next
    case False
    then have u: "ulp_index (Suc n) a = ulp_index n a" by simp
    show ?thesis
    proof (cases "j = Suc n")
      case True
      then show ?thesis using False by simp
    next
      case F: False
      then have "j \<le> n" using Suc.prems by simp
      then show ?thesis using Suc.IH Suc.prems(1) u by simp
    qed
  qed
qed

lemma round_even_of_int [simp]: "round_even (of_int k) = k"
  by (simp add: round_even_def)

lemma round_even_ge_floor: "\<lfloor>x\<rfloor> \<le> round_even x"
  by (simp add: round_even_def Let_def)

lemma round_even_ge: "of_int N \<le> x \<Longrightarrow> N \<le> round_even x"
  using round_even_ge_floor [of x] le_floor_iff [of N x] by linarith

lemma to_double_zero [simp]: "to_double 0 = Fin 0"
  by (simp add: to_double_def)

lemma to_double_minus: "to_double (- q) = jneg (to_double q)"
  by (auto simp: to_double_def Let_def inf_of_def)

text \<open>A value of \<open>2^1024\<close> or more overflows.\<close>

lemma to_double_overflow:
  assumes "2 ^ 1024 \<le> q"
  shows "to_double q = PInf"
proof -
  have q: "0 < q" using assms by (rule order.strict_trans2 [rotated]) simp
  have "\<not> ulp_index 2045 q < 2045"
  proof
    assume "ulp_index 2045 q < 2045"
    then have "q < 2 powi (int 2045 - 1022)" by (rule ulp_index_upper) simp
    then have "q < 2 ^ 1023" by simp
    moreover have "(2::rat) ^ 1023 \<le> 2 ^ 1024" by simp
    ultimately show False using assms by linarith
  qed
  then have j: "ulp_index 2045 q = 2045" using ulp_index_le [of 2045 q] by linarith
  have "(2::rat) ^ 1024 = 2 ^ 53 * 2 ^ 971" by (simp flip: power_add)
  then have "of_int (2 ^ 53) \<le> q / 2 ^ 971" using assms by (simp add: le_divide_eq)
  then have "2 ^ 53 \<le> round_even (q / 2 ^ 971)" by (rule round_even_ge)
  then have "(of_int (2 ^ 53) :: rat) \<le> of_int (round_even (q / 2 ^ 971))"
    by (simp only: of_int_le_iff)
  then have "(2::rat) ^ 53 * 2 ^ 971 \<le> of_int (round_even (q / 2 ^ 971)) * 2 ^ 971"
    by simp
  then have "(2::rat) ^ 1024 \<le> of_int (round_even (q / 2 ^ 971)) * 2 ^ 971"
    using \<open>(2::rat) ^ 1024 = 2 ^ 53 * 2 ^ 971\<close> by simp
  then show ?thesis using q j by (simp add: to_double_def inf_of_def)
qed


text \<open>Integers up to \<open>2^53\<close> are doubles.\<close>

lemma to_double_safe_pos:
  assumes "1 \<le> n" and "n \<le> 2 ^ 53"
  shows "to_double (of_int n) = Fin (of_int n)"
proof -
  define q :: rat where "q = of_int n"
  define j where "j = ulp_index 2045 q"
  define e where "e = int j - 1074"
  have q: "1 \<le> q" "q \<le> 2 ^ 53" using assms by (simp_all add: q_def flip: of_int_le_iff)
  have lo: "1022 \<le> j"
  proof (rule ccontr)
    assume "\<not> 1022 \<le> j"
    then have "ulp_index 2045 q < 1022" by (simp add: j_def)
    then have "q < 2 powi (int 1022 - 1022)" by (rule ulp_index_upper) simp
    then show False using q by simp
  qed
  have hi: "j \<le> 1075"
  proof (rule ccontr)
    assume "\<not> j \<le> 1075"
    then have a: "1076 \<le> j" by simp
    then have "0 < ulp_index 2045 q" by (simp add: j_def)
    then have "2 powi (int j - 1022) \<le> q" unfolding j_def by (rule ulp_index_lower)
    moreover have "(2::rat) powi 54 \<le> 2 powi (int j - 1022)"
      using a by (intro power_int_increasing) simp_all
    ultimately have "(2::rat) powi 54 \<le> 2 ^ 53" using q by linarith
    then show False by simp
  qed
  have v: "of_int (round_even (q / 2 powi e)) * 2 powi e = q"
  proof (cases "e \<le> 0")
    case True
    define k where "k = nat (- e)"
    have "e = - int k" using True by (simp add: k_def)
    then have p: "(2::rat) powi e = 1 / 2 ^ k" by (simp add: power_int_minus_divide)
    have "q / 2 powi e = of_int (n * 2 ^ k)" by (simp add: p q_def)
    then have "round_even (q / 2 powi e) = n * 2 ^ k" by (simp only: round_even_of_int)
    then show ?thesis by (simp add: p q_def)
  next
    case False
    then have e1: "e = 1" using hi by (simp add: e_def)
    then have j1: "j = 1075" by (simp add: e_def)
    have "0 < ulp_index 2045 q" using lo by (simp add: j_def)
    then have "2 powi (int j - 1022) \<le> q" unfolding j_def by (rule ulp_index_lower)
    then have "q = 2 ^ 53" using q j1 by simp
    then have "q / 2 powi e = of_int (2 ^ 52)" by (simp add: e1)
    then have "round_even (q / 2 powi e) = 2 ^ 52" by (simp only: round_even_of_int)
    then show ?thesis using \<open>q = 2 ^ 53\<close> by (simp add: e1)
  qed
  have "q < 2 ^ 1024"
  proof -
    have "(2::rat) ^ 53 < 2 ^ 1024" by simp
    then show ?thesis using q by linarith
  qed
  then have "to_double q = Fin q"
    using q v by (simp add: to_double_def Let_def j_def [symmetric] e_def [symmetric])
  then show ?thesis by (simp add: q_def)
qed

lemma to_double_safe:
  assumes "\<bar>n\<bar> \<le> 2 ^ 53"
  shows "to_double (of_int n) = Fin (of_int n)"
proof -
  consider "n = 0" | "1 \<le> n" | "1 \<le> - n" by linarith
  then show ?thesis
  proof cases
    case 1
    then show ?thesis by simp
  next
    case 2
    then show ?thesis using assms by (intro to_double_safe_pos) simp_all
  next
    case 3
    then have "to_double (of_int (- n)) = Fin (of_int (- n))"
      using assms by (intro to_double_safe_pos) simp_all
    then have "jneg (to_double (of_int n)) = Fin (- of_int n)"
      by (simp add: to_double_minus)
    then show ?thesis by (cases "to_double (of_int n)") simp_all
  qed
qed

lemma to_double_numeral [simp]:
  "(numeral w :: int) \<le> 9007199254740992 \<Longrightarrow> to_double (numeral w) = Fin (numeral w)"
  using to_double_safe [of "numeral w"] by simp

lemma to_double_neg_numeral [simp]:
  "(numeral w :: int) \<le> 9007199254740992 \<Longrightarrow> to_double (- numeral w) = Fin (- numeral w)"
  using to_double_safe [of "- numeral w"] by simp

lemma to_double_one [simp]: "to_double 1 = Fin 1"
  using to_double_safe [of 1] by simp

lemma jmin_above: "jlt b a \<Longrightarrow> jmin a b = jmin b b"
  by (cases a; cases b) (simp_all add: jmin_def)

text \<open>A sum with an infinite term is infinite or NaN, and the throughput is then zero.\<close>

lemma jadd_PInf_left: "jadd PInf x = PInf \<or> jadd PInf x = NaN"
  by (cases x) simp_all

lemma jadd_PInf_right: "jadd x PInf = PInf \<or> jadd x PInf = NaN"
  by (cases x) simp_all

lemma sum_with_infinite:
  assumes "a = PInf \<or> b = PInf \<or> c = PInf"
  shows "jadd (jadd a b) c = PInf \<or> jadd (jadd a b) c = NaN"
proof -
  consider "c = PInf" | "a = PInf" | "b = PInf" using assms by blast
  then show ?thesis
  proof cases
    case 1
    then show ?thesis using jadd_PInf_right [of "jadd a b"] by simp
  next
    case 2
    then have "jadd a b = PInf \<or> jadd a b = NaN" using jadd_PInf_left [of b] by simp
    then show ?thesis using jadd_PInf_left [of c] by auto
  next
    case 3
    then have "jadd a b = PInf \<or> jadd a b = NaN" using jadd_PInf_right [of a] by simp
    then show ?thesis using jadd_PInf_left [of c] by auto
  qed
qed

lemma round_even_le: "x \<le> of_int N \<Longrightarrow> round_even x \<le> N"
proof -
  assume a: "x \<le> of_int N"
  show ?thesis
  proof (cases "x = of_int \<lfloor>x\<rfloor>")
    case True
    then have "round_even x = \<lfloor>x\<rfloor>" by (metis round_even_of_int)
    then have "(of_int (round_even x) :: rat) \<le> of_int N" using a True by simp
    then show ?thesis by (simp only: of_int_le_iff)
  next
    case False
    then have "of_int \<lfloor>x\<rfloor> < x" using of_int_floor_le [of x] by linarith
    then have "of_int \<lfloor>x\<rfloor> < (of_int N :: rat)" using a by linarith
    then have "\<lfloor>x\<rfloor> < N" by (simp only: of_int_less_iff)
    moreover have "round_even x \<le> \<lfloor>x\<rfloor> + 1" by (simp add: round_even_def Let_def)
    ultimately show ?thesis by linarith
  qed
qed

text \<open>Below \<open>2^1023\<close> nothing overflows.\<close>

lemma to_double_finite:
  assumes "\<bar>q\<bar> < 2 ^ 1023"
  shows "is_fin (to_double q)"
proof (cases "q = 0")
  case True
  then show ?thesis by simp
next
  case False
  define a where "a = \<bar>q\<bar>"
  define j where "j = ulp_index 2045 a"
  define e where "e = int j - 1074"
  have a: "0 < a" "a < 2 ^ 1023" using False assms by (simp_all add: a_def)
  have j: "j < 2045"
  proof (rule ccontr)
    assume "\<not> j < 2045"
    then have j2: "j = 2045" using ulp_index_le [of 2045 a] by (simp add: j_def)
    then have "0 < ulp_index 2045 a" by (simp add: j_def)
    then have "2 powi (int j - 1022) \<le> a" unfolding j_def by (rule ulp_index_lower)
    then show False using a j2 by simp
  qed
  then have "ulp_index 2045 a < Suc j" "Suc j \<le> 2045" by (simp_all add: j_def)
  then have "a < 2 powi (int (Suc j) - 1022)" by (rule ulp_index_upper)
  also have "int (Suc j) - 1022 = e + 53" by (simp add: e_def)
  also have "(2::rat) powi (e + 53) = 2 powi e * 2 ^ 53" by (simp add: power_int_add)
  finally have "a / 2 powi e < 2 ^ 53" by (simp add: divide_less_eq mult.commute)
  then have "a / 2 powi e \<le> of_int (2 ^ 53)" by simp
  then have "round_even (a / 2 powi e) \<le> 2 ^ 53" by (rule round_even_le)
  then have "(of_int (round_even (a / 2 powi e)) :: rat) \<le> of_int (2 ^ 53)"
    by (simp only: of_int_le_iff)
  then have "of_int (round_even (a / 2 powi e)) * 2 powi e \<le> 2 ^ 53 * (2::rat) powi e"
    by (simp add: mult_right_mono)
  also have "2 ^ 53 * (2::rat) powi e = 2 powi (e + 53)" by (simp add: power_int_add)
  also have "\<dots> \<le> 2 powi 1023" using j by (intro power_int_increasing) (simp_all add: e_def)
  also have "\<dots> < 2 ^ 1024" by simp
  finally have "\<not> 2 ^ 1024 \<le> of_int (round_even (a / 2 powi e)) * (2::rat) powi e" by simp
  then show ?thesis
    using False by (simp add: to_double_def Let_def a_def [symmetric] j_def [symmetric] e_def [symmetric])
qed


text \<open>Between \<open>2^53\<close> and \<open>2^54\<close> the doubles are the even integers.\<close>

lemma to_double_above_safe:
  assumes "2 ^ 53 \<le> n" and "n < 2 ^ 54"
  shows "to_double (of_int n) = Fin (of_int (round_even (of_int n / 2)) * 2)"
proof -
  define q :: rat where "q = of_int n"
  define j where "j = ulp_index 2045 q"
  have "(of_int (2 ^ 53) :: rat) \<le> of_int n" "(of_int n :: rat) < of_int (2 ^ 54)"
    using assms by (simp_all only: of_int_le_iff of_int_less_iff)
  then have q: "2 ^ 53 \<le> q" "q < 2 ^ 54" by (simp_all add: q_def)
  have lo: "1075 \<le> j"
  proof (rule ccontr)
    assume "\<not> 1075 \<le> j"
    then have "ulp_index 2045 q < 1075" by (simp add: j_def)
    then have "q < 2 powi (int 1075 - 1022)" by (rule ulp_index_upper) simp
    then show False using q by simp
  qed
  have hi: "j \<le> 1075"
  proof (rule ccontr)
    assume "\<not> j \<le> 1075"
    then have a: "1076 \<le> j" by simp
    then have "0 < ulp_index 2045 q" by (simp add: j_def)
    then have "2 powi (int j - 1022) \<le> q" unfolding j_def by (rule ulp_index_lower)
    moreover have "(2::rat) powi 54 \<le> 2 powi (int j - 1022)"
      using a by (intro power_int_increasing) simp_all
    ultimately have "(2::rat) powi 54 < 2 ^ 54" using q by linarith
    then show False by simp
  qed
  have j: "int j - 1074 = 1" using lo hi by simp
  have "q / 2 \<le> of_int (2 ^ 53)" using q by simp
  then have "round_even (q / 2) \<le> 2 ^ 53" by (rule round_even_le)
  then have "(of_int (round_even (q / 2)) :: rat) \<le> of_int (2 ^ 53)"
    by (simp only: of_int_le_iff)
  then have "(of_int (round_even (q / 2)) :: rat) * 2 \<le> 2 ^ 54" by simp
  moreover have "(2::rat) ^ 54 < 2 ^ 1024" by simp
  ultimately have v: "\<not> 2 ^ 1024 \<le> (of_int (round_even (q / 2)) :: rat) * 2" by linarith
  have "0 < q" using q by (simp add: order.strict_trans2 [of 0 "2 ^ 53" q])
  then have "to_double q = Fin (of_int (round_even (q / 2)) * 2)"
    using v by (simp add: to_double_def Let_def j_def [symmetric] j)
  then show ?thesis by (simp add: q_def)
qed

lemma to_double_rounded: "to_double 9007199515875289 = Fin 9007199515875288"
proof -
  have "\<lfloor>9007199515875289 / 2 :: rat\<rfloor> = 4503599757937644" by (simp add: floor_eq_iff)
  then have "round_even (9007199515875289 / 2) = 4503599757937644"
    by (simp add: round_even_def Let_def)
  then show ?thesis using to_double_above_safe [of 9007199515875289] by simp
qed

lemma to_double_even: "to_double 9007199515875288 = Fin 9007199515875288"
  using to_double_above_safe [of 9007199515875288] by (simp add: round_even_def)

text \<open>Rounding keeps a bound by a power of two, and keeps an integer an integer.\<close>

lemma ulp_exponent_le:
  assumes "0 < a" and "a \<le> 2 ^ k"
  shows "int (ulp_index 2045 a) - 1074 \<le> int k"
proof (cases "ulp_index 2045 a = 0")
  case True
  then show ?thesis by simp
next
  case False
  then have "2 powi (int (ulp_index 2045 a) - 1022) \<le> a" by (intro ulp_index_lower) simp
  then have "(2::rat) powi (int (ulp_index 2045 a) - 1022) \<le> 2 powi (int k)"
    using assms(2) by simp
  then have "int (ulp_index 2045 a) - 1022 \<le> int k"
    using power_int_le_imp_le_exp [of "2::rat" "int (ulp_index 2045 a) - 1022" "int k"]
    by simp
  then show ?thesis by simp
qed

lemma to_double_bound:
  assumes "\<bar>q\<bar> \<le> 2 ^ k" and "k \<le> 1023"
  shows "\<exists>r. to_double q = Fin r \<and> \<bar>r\<bar> \<le> 2 ^ k"
proof (cases "q = 0")
  case True
  then show ?thesis by simp
next
  case False
  define a where "a = \<bar>q\<bar>"
  define e where "e = int (ulp_index 2045 a) - 1074"
  define v :: rat where "v = of_int (round_even (a / 2 powi e)) * 2 powi e"
  have a: "0 < a" "a \<le> 2 ^ k" using False assms(1) by (simp_all add: a_def)
  have e: "e \<le> int k" unfolding e_def using a by (rule ulp_exponent_le)
  define d where "d = nat (int k - e)"
  have d: "int k = e + int d" using e by (simp add: d_def)
  have p: "(2::rat) ^ k = 2 powi e * 2 ^ d"
  proof -
    have "(2::rat) ^ k = 2 powi (int k)" by simp
    also have "\<dots> = 2 powi (e + int d)" by (simp only: d)
    also have "\<dots> = 2 powi e * 2 powi (int d)" by (simp add: power_int_add)
    finally show ?thesis by simp
  qed
  have "a / 2 powi e \<le> 2 ^ d" using a(2) by (simp add: p divide_le_eq mult.commute)
  then have "a / 2 powi e \<le> of_int (2 ^ d)" by simp
  then have "round_even (a / 2 powi e) \<le> 2 ^ d" by (rule round_even_le)
  then have "(of_int (round_even (a / 2 powi e)) :: rat) \<le> of_int (2 ^ d)"
    by (simp only: of_int_le_iff)
  then have "v \<le> 2 ^ d * 2 powi e" unfolding v_def by (simp add: mult_right_mono)
  then have vk: "v \<le> 2 ^ k" by (simp add: p mult.commute)
  have "0 \<le> a / 2 powi e" using a(1) by simp
  then have "of_int 0 \<le> a / 2 powi e" by simp
  then have "0 \<le> round_even (a / 2 powi e)" by (rule round_even_ge)
  then have v0: "0 \<le> v" by (simp add: v_def)
  have "(2::rat) ^ k \<le> 2 ^ 1023" using assms(2) by (intro power_increasing) simp_all
  moreover have "(2::rat) ^ 1023 < 2 ^ 1024" by simp
  ultimately have "\<not> 2 ^ 1024 \<le> v" using vk by linarith
  then have "to_double q = Fin (if q < 0 then - v else v)"
    using False
    by (simp add: to_double_def Let_def a_def [symmetric] e_def [symmetric] v_def [symmetric])
  then show ?thesis using vk v0 by auto
qed

lemma to_double_int:
  assumes "to_double (of_int n) = Fin r"
  shows "r \<in> \<int>"
proof (cases "\<bar>n\<bar> \<le> 2 ^ 53")
  case True
  then have "to_double (of_int n) = Fin (of_int n)" by (rule to_double_safe)
  then show ?thesis using assms by auto
next
  case False
  define a :: rat where "a = \<bar>of_int n\<bar>"
  define j where "j = ulp_index 2045 a"
  define e where "e = int j - 1074"
  have "2 ^ 53 \<le> \<bar>n\<bar>" using False by simp
  then have "(of_int (2 ^ 53) :: rat) \<le> of_int \<bar>n\<bar>" by (simp only: of_int_le_iff)
  then have a: "2 ^ 53 \<le> a" by (simp add: a_def)
  have "1075 \<le> j"
  proof (rule ccontr)
    assume "\<not> 1075 \<le> j"
    then have "ulp_index 2045 a < 1075" by (simp add: j_def)
    then have "a < 2 powi (int 1075 - 1022)" by (rule ulp_index_upper) simp
    then show False using a by simp
  qed
  then have e: "0 \<le> e" by (simp add: e_def)
  define d where "d = nat e"
  have p: "(2::rat) powi e = of_int (2 ^ d)" using e by (simp add: d_def power_int_def)
  have n0: "(of_int n :: rat) \<noteq> 0" using False by auto
  define v :: rat where "v = of_int (round_even (a / 2 powi e)) * 2 powi e"
  have "v = of_int (round_even (a / 2 powi e) * 2 ^ d)" by (simp add: v_def p)
  then have v: "v \<in> \<int>" by (simp only: Ints_of_int)
  have "to_double (of_int n) =
      (if 2 ^ 1024 \<le> v then inf_of (of_int n < (0::rat))
       else Fin (if of_int n < (0::rat) then - v else v))"
    using n0
    by (simp only: to_double_def Let_def a_def [symmetric] j_def [symmetric] e_def [symmetric]
        v_def [symmetric] if_False)
  then have "r = v \<or> r = - v" using assms by (auto simp: inf_of_def split: if_splits)
  then show ?thesis using v by auto
qed

lemma magnitude_le_Fin [simp]: "magnitude_le k (Fin q) = (\<bar>q\<bar> \<le> 2 ^ k)"
  by (simp add: magnitude_le_def)

lemma magnitude_le_other [simp]:
  "\<not> magnitude_le k PInf" "\<not> magnitude_le k NInf" "\<not> magnitude_le k NaN"
  by (simp_all add: magnitude_le_def)

lemma magnitude_le_mono: "magnitude_le j v \<Longrightarrow> j \<le> k \<Longrightarrow> magnitude_le k v"
proof (cases v)
  case (Fin q)
  assume m: "magnitude_le j v" and "j \<le> k"
  then have "(2::rat) ^ j \<le> 2 ^ k" by (intro power_increasing) simp_all
  moreover have "\<bar>q\<bar> \<le> 2 ^ j" using m Fin by simp
  ultimately have "\<bar>q\<bar> \<le> 2 ^ k" by (rule order.trans [rotated])
  then show ?thesis using Fin by simp
qed simp_all

lemma magnitude_le_to_double: "\<bar>q\<bar> \<le> 2 ^ k \<Longrightarrow> k \<le> 1023 \<Longrightarrow> magnitude_le k (to_double q)"
  using to_double_bound [of q k] by auto

lemma magnitude_le_jmul:
  assumes "magnitude_le j a" and "magnitude_le k b" and "j + k \<le> 1023"
  shows "magnitude_le (j + k) (jmul a b)"
proof -
  obtain p q where a: "a = Fin p" "\<bar>p\<bar> \<le> 2 ^ j" and b: "b = Fin q" "\<bar>q\<bar> \<le> 2 ^ k"
    using assms(1,2) by (cases a; cases b) simp_all
  have "\<bar>p\<bar> * \<bar>q\<bar> \<le> 2 ^ j * 2 ^ k" using a(2) b(2) by (intro mult_mono) simp_all
  then have "\<bar>p * q\<bar> \<le> 2 ^ (j + k)" by (simp add: abs_mult power_add)
  then show ?thesis using a(1) b(1) assms(3) by (simp add: magnitude_le_to_double)
qed

lemma magnitude_le_jadd:
  assumes "magnitude_le k a" and "magnitude_le k b" and "k < 1023"
  shows "magnitude_le (Suc k) (jadd a b)"
proof -
  obtain p q where a: "a = Fin p" "\<bar>p\<bar> \<le> 2 ^ k" and b: "b = Fin q" "\<bar>q\<bar> \<le> 2 ^ k"
    using assms(1,2) by (cases a; cases b) simp_all
  have "\<bar>p + q\<bar> \<le> 2 ^ Suc k" using a(2) b(2) by simp
  then show ?thesis using a(1) b(1) assms(3) by (simp add: magnitude_le_to_double del: power_Suc)
qed

lemma magnitude_le_jneg: "magnitude_le k a \<Longrightarrow> magnitude_le k (jneg a)"
  by (cases a) simp_all

lemma magnitude_le_jsub:
  "magnitude_le k a \<Longrightarrow> magnitude_le k b \<Longrightarrow> k < 1023 \<Longrightarrow> magnitude_le (Suc k) (jsub a b)"
  by (simp add: jsub_def magnitude_le_jadd magnitude_le_jneg)

lemma magnitude_le_jmax:
  "magnitude_le k a \<Longrightarrow> magnitude_le k b \<Longrightarrow> magnitude_le k (jmax a b)"
  by (cases a; cases b) (simp_all add: jmax_def)

lemma magnitude_le_jmin:
  "magnitude_le k a \<Longrightarrow> magnitude_le k b \<Longrightarrow> magnitude_le k (jmin a b)"
  by (cases a; cases b) (simp_all add: jmin_def)

lemma magnitude_le_jdiv:
  assumes "magnitude_le k a" and "1 \<le> q" and "k \<le> 1023"
  shows "magnitude_le k (jdiv a (Fin q))"
proof -
  obtain p where a: "a = Fin p" "\<bar>p\<bar> \<le> 2 ^ k" using assms(1) by (cases a) simp_all
  have "\<bar>p\<bar> / q \<le> \<bar>p\<bar> / 1" using assms(2) by (intro divide_left_mono) simp_all
  then have "\<bar>p / q\<bar> \<le> 2 ^ k" using a(2) assms(2) by simp
  then show ?thesis using a(1) assms(2,3) by (simp add: magnitude_le_to_double)
qed

lemma jmul_zero_left: "magnitude_le k b \<Longrightarrow> jmul (Fin 0) b = Fin 0"
  by (cases b) simp_all

lemma magnitude_le_is_fin: "magnitude_le k v \<Longrightarrow> is_fin v"
  by (cases v) simp_all

text \<open>Sums and products of integers are integers.\<close>

lemma integer_valued_Fin: "integer_valued (Fin q) = (q \<in> \<int>)"
  by (auto simp: integer_valued_def Ints_def)

lemma integer_valued_other [simp]:
  "integer_valued PInf" "integer_valued NInf" "integer_valued NaN"
  by (simp_all add: integer_valued_def)

lemma integer_valued_int [simp]: "integer_valued (Fin (of_int n))"
  by (simp add: integer_valued_Fin)

lemma integer_valued_zero [simp]: "integer_valued (Fin 0)"
  by (simp add: integer_valued_Fin)

lemma integer_valued_one [simp]: "integer_valued (Fin 1)"
  by (simp add: integer_valued_Fin)

lemma integer_valued_to_double [simp]: "integer_valued (to_double (of_int n))"
  using to_double_int [of n] by (cases "to_double (of_int n)") (simp_all add: integer_valued_Fin)

lemma integer_valued_jadd:
  assumes "integer_valued a" and "integer_valued b"
  shows "integer_valued (jadd a b)"
proof (cases "is_fin a \<and> is_fin b")
  case True
  then obtain m n where "a = Fin (of_int m)" "b = Fin (of_int n)"
    using assms by (cases a; cases b) (auto simp: integer_valued_Fin Ints_def)
  then have "jadd a b = to_double (of_int (m + n))" by simp
  then show ?thesis by (simp only: integer_valued_to_double)
next
  case False
  then have "\<not> is_fin (jadd a b)" by (cases a; cases b) simp_all
  then show ?thesis by (cases "jadd a b") simp_all
qed

lemma integer_valued_jmul:
  assumes "integer_valued a" and "integer_valued b"
  shows "integer_valued (jmul a b)"
proof (cases "is_fin a \<and> is_fin b")
  case True
  then obtain m n where "a = Fin (of_int m)" "b = Fin (of_int n)"
    using assms by (cases a; cases b) (auto simp: integer_valued_Fin Ints_def)
  then have "jmul a b = to_double (of_int (m * n))" by simp
  then show ?thesis by (simp only: integer_valued_to_double)
next
  case False
  then have "\<not> is_fin (jmul a b)" by (cases a; cases b) (simp_all add: inf_of_def)
  then show ?thesis by (cases "jmul a b") simp_all
qed

lemma integer_valued_pos:
  assumes "integer_valued v" and "jgt v (Fin 0)" and "is_fin v"
  shows "\<exists>q. v = Fin q \<and> 1 \<le> q"
proof -
  obtain n where v: "v = Fin (of_int n)"
    using assms(1,3) by (cases v) (auto simp: integer_valued_Fin Ints_def)
  then have "0 < n" using assms(2) by (simp add: jgt_def)
  then have "1 \<le> n" by simp
  then have "(1::rat) \<le> of_int n" by (simp only: of_int_1_le_iff)
  then show ?thesis using v by simp
qed

section \<open>Lemmas on the two calculators\<close>

text \<open>The assignments of \<open>calculate\<close>, one equation for each.\<close>

lemma derived_values_fields:
  fixes inp
  defines "r \<equiv> derived_values inp"
  shows "totalMoeParams r = jmax (jsub (total_params inp) (dense_params inp)) (Fin 0)"
    and "bytesPerParam r = jdiv (quantization inp) (Fin 8)"
    and "denseSizeGB r = jdiv (jmul (dense_params inp) (bytesPerParam r)) (Fin 1000000000)"
    and "denseKvGB r = jadd (denseSizeGB r) (num_or_zero (kv_cache inp))"
    and "denseLoadMs r =
           (if jgt (gpu1_bw inp) (Fin 0) then jmul (jdiv (denseKvGB r) (gpu1_bw inp)) (Fin 1000)
            else PInf)"
    and "moeTotalGB r = jdiv (jmul (totalMoeParams r) (bytesPerParam r)) (Fin 1000000000)"
    and "moeShare r =
           (if jgt (moeTotalGB r) (Fin 0) \<and> jgt (gpu2_vram inp) (Fin 0)
            then jmin (Fin 1) (jdiv (gpu2_vram inp) (moeTotalGB r)) else Fin 0)"
    and "activeMoeSizeGB r = jdiv (jmul (moe_params inp) (bytesPerParam r)) (Fin 1000000000)"
    and "gpu2MoeMs r =
           (if jgt (gpu2_bw inp) (Fin 0)
            then jmul (jdiv (jmul (moeShare r) (activeMoeSizeGB r)) (gpu2_bw inp)) (Fin 1000)
            else PInf)"
    and "systemShare r = jsub (Fin 1) (moeShare r)"
    and "systemMoeMs r =
           (if jgt (system_bw inp) (Fin 0)
            then jmul (jdiv (jmul (systemShare r) (activeMoeSizeGB r)) (system_bw inp)) (Fin 1000)
            else PInf)"
    and "totalMsPerToken r = jadd (jadd (denseLoadMs r) (gpu2MoeMs r)) (systemMoeMs r)"
    and "tokensPerSec r =
           (if jgt (totalMsPerToken r) (Fin 0) then jdiv (Fin 1000) (totalMsPerToken r)
            else Fin 0)"
  unfolding r_def derived_values_def Let_def by (simp_all only: speed_result.select_convs)

lemma calculate_Inr: "calculate inp = Inr r \<Longrightarrow> r = derived_values inp"
  by (simp add: calculate_def Let_def split: if_splits)

lemma calculate_valid:
  "\<not> list_ex invalid_field (required_fields inp) \<Longrightarrow> calculate inp = Inr (derived_values inp)"
  by (simp add: calculate_def Let_def required_fields_def invalid_field_def)

text \<open>Evaluation of the parsers on literals.\<close>

lemmas parse_eval =
  js_def sumShapes_def split_lines_def lines_from.simps nl_match_def add_line_def trim_def
  is_ws_def match_groups.simps group_match_def parseShapeGroup_def group_dims_def
  group_content_def strip_to_lbracket_def split_commas_def split_from.simps sep_match_def
  dim_value_def normalizeNumStr_def parseInt10_def dec_value_def is_digit_def
  is_line_term_def int_field_def str_or_def num_or_zero_def Let_def

lemmas speed_eval =
  derived_values_fields jgt_def jsub_def jmax_def jmin_def jle_def num_or_zero_def
  required_fields_def invalid_field_def

text \<open>The count of 310 digits is \<open>Infinity\<close>.\<close>

lemma dec_value_zeros: "foldl (\<lambda>a c. 10 * a + int (c - 48)) a (replicate n 48) = a * 10 ^ n"
  by (induction n arbitrary: a) simp_all

lemma dec_value_huge_count: "dec_value huge_count = 10 ^ 309"
  by (simp add: dec_value_def huge_count_def dec_value_zeros)

lemma parseInt10_huge_count: "parseInt10 huge_count = PInf"
proof -
  have 1: "dropWhile is_ws huge_count = huge_count"
    by (simp add: huge_count_def is_ws_def)
  have 2: "hd huge_count \<noteq> MINUS" "hd huge_count \<noteq> PLUS" "huge_count \<noteq> []"
    by (simp_all add: huge_count_def)
  have 3: "takeWhile is_digit huge_count = huge_count"
    by (simp add: huge_count_def is_digit_def takeWhile_replicate)
  have 4: "(if huge_count \<noteq> [] \<and> (hd huge_count = MINUS \<or> hd huge_count = PLUS)
      then tl huge_count else huge_count) = huge_count"
    using 2 by simp
  have "to_double (of_int (10 ^ 309)) = PInf" by (rule to_double_overflow) simp
  then show ?thesis
    unfolding parseInt10_def Let_def 1 4 3 using 2 by (simp add: dec_value_huge_count)
qed

lemma int_field_huge_count: "int_field (Some huge_count) = PInf"
proof -
  have "str_or (Some huge_count) (js ''0'') = huge_count"
    by (simp add: str_or_def huge_count_def)
  then show ?thesis by (simp add: int_field_def parseInt10_huge_count num_or_zero_def)
qed

lemma int_field_None: "int_field None = Fin 0"
  by (simp add: parse_eval)

lemma sumShapes_None: "sumShapes None = Fin 0"
  by (simp add: sumShapes_def)

section \<open>Lemmas on the shape parser\<close>


lemma is_ws_simps [simp]: "\<not> is_ws COMMA" "\<not> is_ws LBRACKET" "\<not> is_ws RBRACKET"
  by (simp_all add: is_ws_def)

lemma sep_match_Nil [simp]: "sep_match [] = None"
  by (simp add: sep_match_def)

lemma sep_match_comma [simp]: "sep_match (COMMA # cs) = Some (dropWhile is_ws cs)"
  by (simp add: sep_match_def)

lemma sep_match_ws: "is_ws c \<Longrightarrow> sep_match (c # cs) = sep_match cs"
  by (simp add: sep_match_def)

lemma sep_match_other: "\<not> is_ws c \<Longrightarrow> c \<noteq> COMMA \<Longrightarrow> sep_match (c # cs) = None"
  by (simp add: sep_match_def)

lemma split_from_Some: "sep_match s = Some r \<Longrightarrow> split_from p s = rev p # split_from [] r"
  by (subst split_from.simps) simp

lemma split_from_Nil [simp]: "split_from p [] = [rev p]"
  by (subst split_from.simps) simp

lemma split_from_None: "sep_match (c # cs) = None \<Longrightarrow> split_from p (c # cs) = split_from (c # p) cs"
  by (subst split_from.simps) simp

text \<open>What has been read of the current piece is a prefix of the first piece.\<close>

lemma split_from_piece:
  "split_from p s = (rev p @ hd (split_from [] s)) # tl (split_from [] s)"
proof (induction s arbitrary: p rule: length_induct)
  case (1 s)
  show ?case
  proof (cases "sep_match s")
    case (Some r)
    then show ?thesis by (simp add: split_from_Some)
  next
    case None
    show ?thesis
    proof (cases s)
      case Nil
      then show ?thesis by simp
    next
      case (Cons c cs)
      have a: "split_from q s = split_from (c # q) cs" for q
        using None Cons by (simp add: split_from_None)
      have "length cs < length s" using Cons by simp
      then have ih: "split_from q cs = (rev q @ hd (split_from [] cs)) # tl (split_from [] cs)" for q
        using 1 by blast
      show ?thesis
        by (simp add: a ih [of "c # p"] ih [of "[c]"])
    qed
  qed
qed


lemma normalizeNumStr_ws: "list_all is_ws w \<Longrightarrow> normalizeNumStr w = []"
  by (induction w) (simp_all add: normalizeNumStr_def)

lemma normalizeNumStr_append: "normalizeNumStr (a @ b) = normalizeNumStr a @ normalizeNumStr b"
  by (simp add: normalizeNumStr_def)

lemma dim_value_ws_left: "list_all is_ws w \<Longrightarrow> dim_value (w @ t) = dim_value t"
  by (simp add: dim_value_def normalizeNumStr_append normalizeNumStr_ws)

lemma dim_value_ws_right: "list_all is_ws w \<Longrightarrow> dim_value (t @ w) = dim_value t"
  by (simp add: dim_value_def normalizeNumStr_append normalizeNumStr_ws)

lemma dim_value_ws: "list_all is_ws w \<Longrightarrow> dim_value w = Fin 0"
  by (simp add: dim_value_def normalizeNumStr_ws)

lemma sep_match_ws_prefix: "list_all is_ws w \<Longrightarrow> sep_match (w @ x) = sep_match x"
  by (induction w) (simp_all add: sep_match_ws)

lemma split_from_ws_prefix:
  "list_all is_ws w \<Longrightarrow> sep_match x = None \<Longrightarrow> split_from p (w @ x) = split_from (rev w @ p) x"
proof (induction w arbitrary: p)
  case Nil
  then show ?case by simp
next
  case (Cons c w)
  then have "sep_match ((c # w) @ x) = None"
    using sep_match_ws_prefix [of "c # w" x] by simp
  then have "split_from p ((c # w) @ x) = split_from (c # p) (w @ x)"
    by (simp add: split_from_None)
  then show ?case using Cons by simp
qed

lemma split_from_all_ws: "list_all is_ws w \<Longrightarrow> split_from p w = [rev p @ w]"
  using split_from_ws_prefix [of w "[]" p] by simp

lemma group_dims_leading:
  assumes w: "list_all is_ws w" and x: "x \<noteq> []" "\<not> is_ws (hd x)"
  shows "group_dims (w @ x) = group_dims x"
proof (cases "sep_match x")
  case (Some r)
  then have "sep_match (w @ x) = Some r" using w by (simp add: sep_match_ws_prefix)
  then show ?thesis using Some by (simp add: group_dims_def split_commas_def split_from_Some)
next
  case None
  obtain c cs where c: "x = c # cs" using x by (cases x) auto
  define t where "t = hd (split_from [] cs)"
  define ts where "ts = tl (split_from [] cs)"
  have 1: "split_from [] x = (c # t) # ts"
    using None c split_from_piece [of "[c]" cs] by (simp add: split_from_None t_def ts_def)
  have "split_from [] (w @ x) = split_from (rev w) x"
    using split_from_ws_prefix [OF w None, of "[]"] by simp
  also have "\<dots> = (w @ hd (split_from [] x)) # tl (split_from [] x)"
    using split_from_piece [of "rev w" x] by simp
  finally have 2: "split_from [] (w @ x) = (w @ c # t) # ts" using 1 by simp
  show ?thesis
    by (simp add: group_dims_def split_commas_def 1 2 dim_value_ws_left [OF w])
qed

lemma dropWhile_ws_append:
  "dropWhile is_ws x \<noteq> [] \<Longrightarrow> dropWhile is_ws (x @ w) = dropWhile is_ws x @ w"
  by (induction x) auto

lemma last_dropWhile: "dropWhile P x \<noteq> [] \<Longrightarrow> last (dropWhile P x) = last x"
  by (induction x) (auto split: if_splits)

lemma dropWhile_ws_all: "list_all is_ws w \<Longrightarrow> dropWhile is_ws w = []"
  by (induction w) simp_all

lemma group_dims_trailing_aux:
  assumes w: "list_all is_ws w"
  shows "x \<noteq> [] \<Longrightarrow> \<not> is_ws (last x) \<Longrightarrow>
    map dim_value (filter (\<lambda>d. d \<noteq> []) (split_from p (x @ w))) =
    map dim_value (filter (\<lambda>d. d \<noteq> []) (split_from p x))"
proof (induction x arbitrary: p rule: length_induct)
  case (1 x)
  have nd: "dropWhile is_ws x \<noteq> []"
    using 1(2,3) by (metis dropWhile_eq_Nil_conv last_in_set)
  show ?case
  proof (cases "sep_match x")
    case (Some r)
    then obtain t where d: "dropWhile is_ws x = COMMA # t" and r: "r = dropWhile is_ws t"
      by (auto simp: sep_match_def split: list.splits if_splits)
    have dw: "dropWhile is_ws (x @ w) = COMMA # t @ w"
      using dropWhile_ws_append [OF nd, of w] d by simp
    have lx: "last (COMMA # t) = last x" using last_dropWhile [OF nd] d by simp
    show ?thesis
    proof (cases "r = []")
      case True
      have "t = []"
      proof (rule ccontr)
        assume "t \<noteq> []"
        then have "last t = last x" using lx by simp
        moreover have "is_ws (last t)"
          using True r \<open>t \<noteq> []\<close> by (metis dropWhile_eq_Nil_conv last_in_set)
        ultimately show False using 1(3) by simp
      qed
      then have "sep_match (x @ w) = Some []"
        using dw w by (simp add: sep_match_def dropWhile_ws_all)
      then show ?thesis using Some True by (simp add: split_from_Some)
    next
      case False
      then have "dropWhile is_ws (t @ w) = r @ w" using r dropWhile_ws_append by blast
      then have sm: "sep_match (x @ w) = Some (r @ w)" using dw by (simp add: sep_match_def)
      have "t \<noteq> []" using False r by auto
      then have "last r = last x" using lx last_dropWhile [of is_ws t] r False by simp
      moreover have "length r < length x" using Some by (rule sep_match_shorter)
      ultimately have "map dim_value (filter (\<lambda>d. d \<noteq> []) (split_from [] (r @ w))) =
          map dim_value (filter (\<lambda>d. d \<noteq> []) (split_from [] r))"
        using 1 False by auto
      then show ?thesis using Some sm by (simp add: split_from_Some)
    qed
  next
    case None
    obtain c cs where c: "x = c # cs" using 1(2) by (cases x) auto
    obtain e t where d: "dropWhile is_ws x = e # t" using nd by (cases "dropWhile is_ws x") auto
    have e: "e \<noteq> COMMA" using None d by (auto simp: sep_match_def)
    have "dropWhile is_ws (x @ w) = e # t @ w" using dropWhile_ws_append [OF nd, of w] d by simp
    then have n2: "sep_match (x @ w) = None" using e by (simp add: sep_match_def)
    have a: "split_from p (x @ w) = split_from (c # p) (cs @ w)"
      using n2 c by (simp add: split_from_None)
    have b: "split_from p x = split_from (c # p) cs"
      using None c by (simp add: split_from_None)
    show ?thesis
    proof (cases "cs = []")
      case True
      have "dim_value ((rev p @ [c]) @ w) = dim_value (rev p @ [c])"
        using w by (rule dim_value_ws_right)
      then show ?thesis
        using True a b w by (simp add: split_from_all_ws)
    next
      case False
      then have "last cs = last x" "length cs < length x" using c by simp_all
      then show ?thesis using 1 False a b by auto
    qed
  qed
qed

lemma group_dims_trailing:
  "list_all is_ws w \<Longrightarrow> x \<noteq> [] \<Longrightarrow> \<not> is_ws (last x) \<Longrightarrow> group_dims (x @ w) = group_dims x"
  by (simp add: group_dims_def split_commas_def group_dims_trailing_aux)


subsection \<open>trim\<close>

lemma rev_dropWhile_takeWhile:
  "y = rev (dropWhile P (rev y)) @ rev (takeWhile P (rev y))"
proof -
  have "rev (dropWhile P (rev y)) @ rev (takeWhile P (rev y)) =
      rev (takeWhile P (rev y) @ dropWhile P (rev y))"
    by (simp only: rev_append)
  also have "\<dots> = y" by (simp only: takeWhile_dropWhile_id rev_rev_ident)
  finally show ?thesis by simp
qed

lemma list_all_takeWhile: "list_all P (takeWhile P xs)"
  by (induction xs) simp_all

lemma trim_decompose:
  "\<exists>w1 w2. s = w1 @ trim s @ w2 \<and> list_all is_ws w1 \<and> list_all is_ws w2"
proof -
  define y where "y = dropWhile is_ws s"
  have 1: "s = takeWhile is_ws s @ y" by (simp add: y_def)
  have 2: "y = trim s @ rev (takeWhile is_ws (rev y))"
    unfolding trim_def y_def by (rule rev_dropWhile_takeWhile)
  have 3: "list_all is_ws (takeWhile is_ws s)" by (rule list_all_takeWhile)
  have 4: "list_all is_ws (rev (takeWhile is_ws (rev y)))"
    using list_all_takeWhile [of is_ws "rev y"] by (simp add: list_all_iff)
  from 1 2 have "s = takeWhile is_ws s @ trim s @ rev (takeWhile is_ws (rev y))" by simp
  with 3 4 show ?thesis by blast
qed

lemma trim_ends:
  assumes "trim s \<noteq> []"
  shows "\<not> is_ws (hd (trim s))" and "\<not> is_ws (last (trim s))"
proof -
  define y where "y = dropWhile is_ws s"
  have t: "trim s = rev (dropWhile is_ws (rev y))" by (simp add: trim_def y_def)
  have d: "dropWhile is_ws (rev y) \<noteq> []" using assms t by simp
  then show "\<not> is_ws (last (trim s))"
    unfolding t by (simp add: last_rev hd_dropWhile)
  have y: "y \<noteq> []" using d by auto
  then have h: "\<not> is_ws (hd y)" unfolding y_def by (rule hd_dropWhile)
  have "y = trim s @ rev (takeWhile is_ws (rev y))"
    unfolding t by (rule rev_dropWhile_takeWhile)
  then have "hd y = hd (trim s)" using assms by (metis hd_append2)
  then show "\<not> is_ws (hd (trim s))" using h by simp
qed

lemma trim_subset: "set (trim s) \<subseteq> set s"
proof -
  have "set (trim s) \<subseteq> set (dropWhile is_ws s)"
    unfolding trim_def by (metis set_dropWhileD set_rev subsetI)
  then show ?thesis by (meson set_dropWhileD subsetD subsetI)
qed

lemma trim_bracketed: "trim (LBRACKET # x @ [RBRACKET]) = LBRACKET # x @ [RBRACKET]"
  by (simp add: trim_def)

lemma trim_all_ws: "trim s = [] \<Longrightarrow> list_all is_ws s"
  using trim_decompose [of s] by auto

text \<open>The dimensions of a text do not depend on the white space around it.\<close>

lemma group_dims_trim: "trim s \<noteq> [] \<Longrightarrow> group_dims s = group_dims (trim s)"
proof -
  assume n: "trim s \<noteq> []"
  obtain w1 w2 where s: "s = w1 @ trim s @ w2" and w: "list_all is_ws w1" "list_all is_ws w2"
    using trim_decompose by blast
  have "trim s @ w2 \<noteq> []" "\<not> is_ws (hd (trim s @ w2))"
    using n trim_ends(1) [OF n] by simp_all
  then have "group_dims (w1 @ trim s @ w2) = group_dims (trim s @ w2)"
    using w(1) by (rule group_dims_leading [rotated 1])
  also have "\<dots> = group_dims (trim s)"
    using w(2) n trim_ends(2) [OF n] by (rule group_dims_trailing)
  finally show ?thesis using s by simp
qed

lemma group_dims_all_ws: "s \<noteq> [] \<Longrightarrow> list_all is_ws s \<Longrightarrow> group_dims s = [Fin 0]"
  by (simp add: group_dims_def split_commas_def split_from_all_ws dim_value_ws)

subsection \<open>Groups and lines\<close>

lemma strip_from_rbracket_end:
  "RBRACKET \<notin> set x \<Longrightarrow> strip_from_rbracket (x @ [RBRACKET]) = x"
  by (induction x) auto

lemma group_content_bracketed:
  "RBRACKET \<notin> set x \<Longrightarrow> group_content (LBRACKET # x @ [RBRACKET]) = x"
  by (simp add: group_content_def strip_to_lbracket_def strip_from_rbracket_end)

lemma match_groups_Nil [simp]: "match_groups [] = []"
  by (subst match_groups.simps) (simp add: group_match_def)

lemma match_groups_no_lbracket: "LBRACKET \<notin> set s \<Longrightarrow> match_groups s = []"
proof (induction s)
  case Nil
  show ?case by simp
next
  case (Cons c s)
  then have "group_match (c # s) = None" by (simp add: group_match_def)
  then show ?case using Cons by (subst match_groups.simps) simp
qed

lemma group_match_bracketed:
  "RBRACKET \<notin> set x \<Longrightarrow>
   group_match (LBRACKET # x @ RBRACKET # rest) = Some (LBRACKET # x @ [RBRACKET], rest)"
proof -
  assume a: "RBRACKET \<notin> set x"
  then have b: "\<forall>d\<in>set x. d \<noteq> RBRACKET" by auto
  have 1: "dropWhile (\<lambda>d. d \<noteq> RBRACKET) (x @ RBRACKET # rest) = RBRACKET # rest"
    using b by (simp add: dropWhile_append2)
  have 2: "takeWhile (\<lambda>d. d \<noteq> RBRACKET) (x @ RBRACKET # rest) = x"
    using b by (simp add: takeWhile_append2)
  show ?thesis by (simp add: group_match_def 1 2)
qed

lemma match_groups_bracketed:
  "RBRACKET \<notin> set x \<Longrightarrow>
   match_groups (LBRACKET # x @ RBRACKET # rest) = (LBRACKET # x @ [RBRACKET]) # match_groups rest"
  by (subst match_groups.simps) (simp add: group_match_bracketed)

lemma nl_match_no_lf: "LF \<notin> set s \<Longrightarrow> nl_match s = None"
proof (cases s)
  case Nil
  then show ?thesis by (simp add: nl_match_def)
next
  case (Cons c r)
  assume "LF \<notin> set s"
  then have "c \<noteq> LF" "r \<noteq> [] \<Longrightarrow> hd r \<noteq> LF"
    using Cons by (auto dest: hd_in_set)
  then show ?thesis using Cons by (auto simp: nl_match_def)
qed

lemma lines_from_Nil [simp]: "lines_from p [] = [rev p]"
  by (subst lines_from.simps) (simp add: nl_match_def)

lemma lines_from_no_lf: "LF \<notin> set s \<Longrightarrow> lines_from p s = [rev p @ s]"
proof (induction s arbitrary: p)
  case Nil
  show ?case by simp
next
  case (Cons c s)
  then have "nl_match (c # s) = None" by (intro nl_match_no_lf) simp
  then have "lines_from p (c # s) = lines_from (c # p) s"
    by (subst lines_from.simps) simp
  then show ?case using Cons by simp
qed

lemma sumShapes_one_line:
  "s \<noteq> [] \<Longrightarrow> LF \<notin> set s \<Longrightarrow> sumShapes (Some s) = add_line (Fin 0) s"
  by (simp add: sumShapes_def split_lines_def lines_from_no_lf)


subsection \<open>Products with a zero\<close>

lemma is_fin_dim_value: "is_fin (dim_value d)"
  by (simp add: dim_value_def Let_def)

lemma dim_value_zero_token: "dim_value (js ''0'') = Fin 0"
  by (simp add: parse_eval)

lemma jmul_zero_right: "is_fin a \<Longrightarrow> jmul a (Fin 0) = Fin 0"
  by (cases a) simp_all

lemma jmul_by_zero: "jmul a (Fin 0) = Fin 0 \<or> jmul a (Fin 0) = NaN"
  by (cases a) simp_all

lemma foldl_jmul_NaN: "foldl jmul NaN xs = NaN"
  by (induction xs) simp_all

lemma foldl_jmul_from_zero: "list_all is_fin xs \<Longrightarrow> foldl jmul (Fin 0) xs = Fin 0"
proof (induction xs)
  case Nil
  then show ?case by simp
next
  case (Cons x xs)
  then obtain q where "x = Fin q" by (cases x) simp_all
  then show ?case using Cons by simp
qed

lemma foldl_jmul_zero:
  "Fin 0 \<in> set xs \<Longrightarrow> list_all is_fin xs \<Longrightarrow>
   foldl jmul a xs = Fin 0 \<or> foldl jmul a xs = NaN"
proof (induction xs arbitrary: a)
  case Nil
  then show ?case by simp
next
  case (Cons x xs)
  show ?case
  proof (cases "x = Fin 0")
    case True
    then show ?thesis
      using jmul_by_zero [of a] Cons.prems(2) by (auto simp: foldl_jmul_NaN foldl_jmul_from_zero)
  next
    case False
    then show ?thesis using Cons by simp
  qed
qed


subsection \<open>Tokens between commas\<close>

lemma sep_match_no_comma: "COMMA \<notin> set s \<Longrightarrow> sep_match s = None"
proof -
  assume a: "COMMA \<notin> set s"
  show ?thesis
  proof (cases "dropWhile is_ws s")
    case Nil
    then show ?thesis by (simp only: sep_match_def list.case)
  next
    case (Cons c r)
    then have "c \<in> set s" using set_dropWhileD [of c is_ws s] by simp
    then show ?thesis using a Cons by (auto simp: sep_match_def)
  qed
qed

lemma split_from_no_comma: "COMMA \<notin> set t \<Longrightarrow> split_from p t = [rev p @ t]"
proof (induction t arbitrary: p)
  case Nil
  then show ?case by simp
next
  case (Cons c cs)
  have "sep_match (c # cs) = None" using Cons.prems by (rule sep_match_no_comma)
  then have "split_from p (c # cs) = split_from (c # p) cs" by (rule split_from_None)
  then show ?case using Cons by simp
qed

lemma sep_match_token:
  assumes "COMMA \<notin> set x" and "x \<noteq> []" and "\<not> is_ws (last x)"
  shows "sep_match (x @ y) = None"
proof -
  have "last x \<in> set x" using assms(2) by simp
  then have n: "dropWhile is_ws x \<noteq> []" using assms(3) by (auto simp: dropWhile_eq_Nil_conv)
  then have d: "dropWhile is_ws (x @ y) = dropWhile is_ws x @ y" by (rule dropWhile_ws_append)
  obtain c r where c: "dropWhile is_ws x = c # r" using n by (cases "dropWhile is_ws x") auto
  then have "c \<in> set x" using set_dropWhileD [of c is_ws x] by simp
  then have "c \<noteq> COMMA" using assms(1) by auto
  then show ?thesis using c d by (simp add: sep_match_def)
qed

lemma split_from_token:
  assumes "COMMA \<notin> set x" and "x = [] \<or> \<not> is_ws (last x)" and "list_all is_ws w"
  shows "split_from p (x @ w @ COMMA # rest) =
         (rev p @ x) # split_from [] (dropWhile is_ws rest)"
  using assms(1,2)
proof (induction x arbitrary: p)
  case Nil
  have "sep_match (w @ COMMA # rest) = Some (dropWhile is_ws rest)"
    using assms(3) by (simp add: sep_match_ws_prefix)
  then show ?case by (simp add: split_from_Some)
next
  case (Cons c cs)
  have "sep_match ((c # cs) @ w @ COMMA # rest) = None"
    using Cons.prems by (intro sep_match_token) auto
  then have "split_from p ((c # cs) @ w @ COMMA # rest) =
      split_from (c # p) (cs @ w @ COMMA # rest)"
    by (simp add: split_from_None)
  moreover have "cs = [] \<or> \<not> is_ws (last cs)" using Cons.prems(2) by (cases cs) auto
  ultimately show ?case using Cons.IH [of "c # p"] Cons.prems(1) by simp
qed

lemma rstrip_decompose:
  "\<exists>x w. t = x @ w \<and> list_all is_ws w \<and> (x = [] \<or> \<not> is_ws (last x)) \<and> set x \<subseteq> set t"
proof -
  define x where "x = rev (dropWhile is_ws (rev t))"
  define w where "w = rev (takeWhile is_ws (rev t))"
  have 1: "t = x @ w" unfolding x_def w_def by (rule rev_dropWhile_takeWhile)
  have 2: "list_all is_ws w" by (simp add: w_def list_all_takeWhile)
  have 3: "x = [] \<or> \<not> is_ws (last x)"
  proof (cases "dropWhile is_ws (rev t)")
    case Nil
    then show ?thesis by (simp add: x_def)
  next
    case (Cons c r)
    then have "\<not> is_ws c" using hd_dropWhile [of is_ws "rev t"] by simp
    then show ?thesis using Cons by (simp add: x_def)
  qed
  have 4: "set x \<subseteq> set t" using set_dropWhileD [of _ is_ws "rev t"] by (auto simp: x_def)
  show ?thesis using 1 2 3 4 by blast
qed

lemma split_from_first_token:
  assumes "COMMA \<notin> set t" and "\<not> list_all is_ws t"
  shows "\<exists>x. x \<noteq> [] \<and> dim_value x = dim_value t \<and>
     split_from [] (t @ COMMA # rest) = x # split_from [] (dropWhile is_ws rest)"
proof -
  obtain x w where d: "t = x @ w" "list_all is_ws w" "x = [] \<or> \<not> is_ws (last x)"
    "set x \<subseteq> set t"
    using rstrip_decompose by blast
  have x: "x \<noteq> []" using d(1,2) assms(2) by auto
  have c: "COMMA \<notin> set x" using d(4) assms(1) by auto
  have "split_from [] (x @ w @ COMMA # rest) =
      (rev [] @ x) # split_from [] (dropWhile is_ws rest)"
    using c d(3) d(2) by (rule split_from_token)
  moreover have "dim_value t = dim_value x" using d(1,2) by (simp add: dim_value_ws_right)
  ultimately show ?thesis using x d(1) by auto
qed

lemma join_with_head:
  "join_with sep (x # ys) = x @ (if ys = [] then [] else sep # join_with sep ys)"
  by (cases ys) simp_all

lemma group_dims_join:
  assumes "COMMA \<notin> set t" and "\<not> list_all is_ws t"
    and "list_all (\<lambda>t. COMMA \<notin> set t \<and> \<not> list_all is_ws t) g"
  shows "group_dims (join_with COMMA (t # g)) = map dim_value (t # g)"
  using assms
proof (induction g arbitrary: t)
  case Nil
  have "t \<noteq> []" using Nil.prems(2) by auto
  then show ?case
    using Nil.prems(1) by (simp add: group_dims_def split_commas_def split_from_no_comma)
next
  case (Cons u g)
  define u' where "u' = dropWhile is_ws u"
  have u: "COMMA \<notin> set u" "\<not> list_all is_ws u" using Cons.prems(3) by simp_all
  have n: "u' \<noteq> []" using u(2) by (simp add: u'_def dropWhile_eq_Nil_conv list_all_iff)
  have 1: "COMMA \<notin> set u'" using u(1) set_dropWhileD [of _ is_ws u] by (auto simp: u'_def)
  have "\<not> is_ws (hd u')" using n hd_dropWhile [of is_ws u] by (simp add: u'_def)
  then have 2: "\<not> list_all is_ws u'" using n by (cases u') auto
  have "u = takeWhile is_ws u @ u'" by (simp add: u'_def)
  then have "dim_value u = dim_value u'"
    using dim_value_ws_left [of "takeWhile is_ws u" u'] by (simp add: list_all_takeWhile)
  then have 3: "dim_value u' = dim_value u" by simp
  have k: "dropWhile is_ws (join_with COMMA (u # g)) = join_with COMMA (u' # g)"
    using n dropWhile_ws_append [of u] by (simp add: join_with_head [of _ _ g] u'_def)
  obtain x where x: "x \<noteq> []" "dim_value x = dim_value t"
    "split_from [] (t @ COMMA # join_with COMMA (u # g)) =
       x # split_from [] (dropWhile is_ws (join_with COMMA (u # g)))"
    using split_from_first_token [OF Cons.prems(1,2)] by blast
  have ih: "group_dims (join_with COMMA (u' # g)) = map dim_value (u' # g)"
    using 1 2 Cons.prems(3) by (intro Cons.IH) simp_all
  have "group_dims (join_with COMMA (t # u # g)) =
      dim_value t # group_dims (join_with COMMA (u' # g))"
    using x by (simp add: group_dims_def split_commas_def k)
  then show ?case using ih 3 by simp
qed

subsection \<open>Dimension tokens\<close>

lemma is_digit_simps: "is_digit c \<Longrightarrow> \<not> is_ws c \<and> c \<noteq> COMMA \<and> c \<noteq> APOSTROPHE \<and> c \<noteq> UNDERSCORE
   \<and> c \<noteq> MINUS \<and> c \<noteq> PLUS \<and> c \<noteq> LBRACKET \<and> c \<noteq> RBRACKET \<and> c \<noteq> LF \<and> c \<noteq> CR"
  by (auto simp: is_digit_def is_ws_def)

lemma takeWhile_all: "list_all P t \<Longrightarrow> takeWhile P t = t"
  by (induction t) simp_all

lemma parseInt10_digits:
  "is_number_token t \<Longrightarrow> parseInt10 t = to_double (of_int (dec_value t))"
proof -
  assume a: "is_number_token t"
  then obtain c cs where t: "t = c # cs" and c: "is_digit c" and cs: "list_all is_digit cs"
    by (cases t) (auto simp: is_number_token_def)
  have 1: "dropWhile is_ws t = t" using t c is_digit_simps by simp
  have 2: "hd t \<noteq> MINUS" "hd t \<noteq> PLUS" using t c is_digit_simps by auto
  have 3: "takeWhile is_digit t = t" using t c cs by (simp add: takeWhile_all)
  have 4: "(if t \<noteq> [] \<and> (hd t = MINUS \<or> hd t = PLUS) then tl t else t) = t"
    using 2 by simp
  show ?thesis unfolding parseInt10_def Let_def 1 4 3 using 2 t by simp
qed

lemma dim_value_token: "is_dim_token t \<Longrightarrow> dim_value t = dimension t"
  by (simp add: dim_value_def dimension_def is_dim_token_def parseInt10_digits
      is_number_token_def Let_def)

lemma dim_token_chars:
  assumes "is_dim_token t"
  shows "COMMA \<notin> set t" and "LBRACKET \<notin> set t" and "RBRACKET \<notin> set t"
    and "LF \<notin> set t" and "CR \<notin> set t" and "\<not> list_all is_ws t"
proof -
  show "COMMA \<notin> set t" "LBRACKET \<notin> set t" "RBRACKET \<notin> set t" "LF \<notin> set t" "CR \<notin> set t"
    using assms by (auto simp: is_dim_token_def list_all_iff)
  show "\<not> list_all is_ws t"
  proof
    assume "list_all is_ws t"
    then have "normalizeNumStr t = []" by (rule normalizeNumStr_ws)
    then show False using assms by (simp add: is_dim_token_def is_number_token_def)
  qed
qed

lemma join_with_chars:
  "c \<in> set (join_with sep g) \<Longrightarrow> (\<exists>t \<in> set g. c \<in> set t) \<or> c = sep"
  by (induction sep g rule: join_with.induct) auto

lemma group_dims_tokens:
  assumes "list_all is_dim_token g"
  shows "group_dims (join_with COMMA g) = map dimension g"
proof (cases g)
  case Nil
  then show ?thesis by (simp add: group_dims_def split_commas_def)
next
  case (Cons t g')
  have a: "\<forall>t \<in> set g. COMMA \<notin> set t \<and> \<not> list_all is_ws t"
    using assms dim_token_chars(1,6) by (auto simp: list_all_iff)
  have "group_dims (join_with COMMA (t # g')) = map dim_value (t # g')"
    using a Cons by (intro group_dims_join) (simp_all add: list_all_iff)
  moreover have "map dim_value g = map dimension g"
    using assms by (simp add: list_all_iff dim_value_token)
  ultimately show ?thesis using Cons by simp
qed

lemma tokens_char:
  assumes "list_all is_dim_token g" and "c \<in> set (join_with COMMA g)"
  shows "c \<noteq> LBRACKET \<and> c \<noteq> RBRACKET \<and> c \<noteq> LF \<and> c \<noteq> CR"
proof -
  consider t where "t \<in> set g" "c \<in> set t" | "c = COMMA"
    using join_with_chars [OF assms(2)] by blast
  then show ?thesis
  proof cases
    case 1
    then have "is_dim_token t" using assms(1) by (simp add: list_all_iff)
    then show ?thesis using dim_token_chars(2-5) [of t] 1(2) by auto
  next
    case 2
    then show ?thesis by simp
  qed
qed

lemma tokens_chars:
  assumes "list_all is_dim_token g"
  shows "LBRACKET \<notin> set (join_with COMMA g)" and "RBRACKET \<notin> set (join_with COMMA g)"
    and "LF \<notin> set (join_with COMMA g)" and "CR \<notin> set (join_with COMMA g)"
  using tokens_char [OF assms] by blast+

lemma parseShapeGroup_group_text:
  assumes "list_all is_dim_token g"
  shows "parseShapeGroup (group_text g) = group_product g"
proof -
  have "group_content (group_text g) = join_with COMMA g"
    using tokens_chars(2) [OF assms] by (simp add: group_text_def group_content_bracketed)
  then show ?thesis
    using group_dims_tokens [OF assms] by (simp add: parseShapeGroup_def group_product_def)
qed

subsection \<open>Groups in a line\<close>

lemma match_groups_skip1: "c \<noteq> LBRACKET \<Longrightarrow> match_groups (c # cs) = match_groups cs"
  by (subst match_groups.simps) (simp add: group_match_def)

lemma match_groups_skip: "LBRACKET \<notin> set w \<Longrightarrow> match_groups (w @ x) = match_groups x"
  by (induction w) (simp_all add: match_groups_skip1)

lemma match_groups_open:
  "RBRACKET \<notin> set cs \<Longrightarrow> match_groups (LBRACKET # cs) = match_groups cs"
proof -
  assume "RBRACKET \<notin> set cs"
  then have d: "dropWhile (\<lambda>d. d \<noteq> RBRACKET) cs = []" by (auto simp: dropWhile_eq_Nil_conv)
  have "group_match (LBRACKET # cs) = None" by (simp add: group_match_def d)
  then show ?thesis by (subst match_groups.simps) simp
qed

lemma match_groups_suffix:
  assumes "LBRACKET \<notin> set w" and "RBRACKET \<notin> set w"
  shows "match_groups (x @ w) = match_groups x"
proof (induction "length x" arbitrary: x rule: less_induct)
  case less
  show ?case
  proof (cases x)
    case Nil
    then show ?thesis using assms(1) by (simp add: match_groups_no_lbracket)
  next
    case (Cons c cs)
    have ih: "match_groups (cs @ w) = match_groups cs" using less [of cs] Cons by simp
    show ?thesis
    proof (cases "c = LBRACKET")
      case False
      then show ?thesis using Cons ih by (simp add: match_groups_skip1)
    next
      case True
      show ?thesis
      proof (cases "RBRACKET \<in> set cs")
        case False
        then have "RBRACKET \<notin> set (cs @ w)" using assms(2) by simp
        then have "match_groups (LBRACKET # cs @ w) = match_groups (cs @ w)"
          by (rule match_groups_open)
        then show ?thesis using Cons True ih False by (simp add: match_groups_open)
      next
        case T: True
        then obtain a b where s: "cs = a @ RBRACKET # b" "RBRACKET \<notin> set a"
          using split_list_first [of RBRACKET cs] by blast
        have "match_groups (b @ w) = match_groups b" using less [of b] Cons s by simp
        then show ?thesis using Cons True s by (simp add: match_groups_bracketed)
      qed
    qed
  qed
qed

lemma match_groups_trim: "match_groups (trim s) = match_groups s"
proof -
  obtain w1 w2 where d: "s = w1 @ trim s @ w2" "list_all is_ws w1" "list_all is_ws w2"
    using trim_decompose by blast
  have 1: "LBRACKET \<notin> set w1" using d(2) by (auto simp: list_all_iff)
  have 2: "LBRACKET \<notin> set w2" "RBRACKET \<notin> set w2" using d(3) by (auto simp: list_all_iff)
  have "match_groups (w1 @ trim s @ w2) = match_groups (trim s @ w2)"
    using 1 by (rule match_groups_skip)
  also have "\<dots> = match_groups (trim s)" using 2 by (rule match_groups_suffix)
  finally show ?thesis using d(1) by simp
qed

lemma trim_ws: "list_all is_ws s \<Longrightarrow> trim s = []"
  by (simp add: trim_def dropWhile_ws_all)

lemma trim_not_ws: "\<not> list_all is_ws s \<Longrightarrow> trim s \<noteq> []"
  using trim_all_ws by blast

lemma match_groups_items:
  assumes "list_all (\<lambda>(g, f). list_all is_dim_token g \<and> is_filler f) items"
  shows "match_groups (concat (map (\<lambda>(g, f). group_text g @ f) items)) =
         map group_text (map fst items)"
  using assms
proof (induction items)
  case Nil
  then show ?case by simp
next
  case (Cons i items)
  obtain g f where i: "i = (g, f)" by (cases i)
  have g: "RBRACKET \<notin> set (join_with COMMA g)" using Cons.prems i by (simp add: tokens_chars(2))
  have f: "LBRACKET \<notin> set f" using Cons.prems i by (auto simp: is_filler_def list_all_iff)
  define rest where "rest = concat (map (\<lambda>(g, f). group_text g @ f) items)"
  have "match_groups (group_text g @ f @ rest) = group_text g # match_groups (f @ rest)"
    using match_groups_bracketed [OF g, of "f @ rest"] by (simp add: group_text_def)
  also have "match_groups (f @ rest) = match_groups rest" using f by (rule match_groups_skip)
  finally show ?case using Cons i by (simp add: rest_def)
qed

lemma add_line_bracketed:
  assumes "is_shape_line (Bracketed lead items)"
  shows "add_line tot (line_text (Bracketed lead items)) =
         foldl (\<lambda>tot g. jadd tot (group_product g)) tot (map fst items)"
proof (cases "items = []")
  case True
  then have "list_all is_ws lead" using assms by simp
  then show ?thesis using True by (simp add: add_line_def trim_ws)
next
  case False
  define L where "L = line_text (Bracketed lead items)"
  have it: "list_all (\<lambda>(g, f). list_all is_dim_token g \<and> is_filler f) items"
    using assms by simp
  have lead: "LBRACKET \<notin> set lead" using assms by (auto simp: is_filler_def list_all_iff)
  have m: "match_groups L = map group_text (map fst items)"
    unfolding L_def using lead it by (simp add: match_groups_skip match_groups_items)
  then have mt: "match_groups (trim L) = map group_text (map fst items)"
    by (simp add: match_groups_trim)
  have "match_groups L \<noteq> []" using m False by simp
  then have "trim L \<noteq> []" using mt m by auto
  then have "add_line tot L =
      foldl (\<lambda>tot g. jadd tot (parseShapeGroup g)) tot (map group_text (map fst items))"
    using mt False by (simp add: add_line_def)
  also have "\<dots> = foldl (\<lambda>tot g. jadd tot (group_product g)) tot (map fst items)"
    using it
  proof (induction items arbitrary: tot)
    case Nil
    then show ?case by simp
  next
    case (Cons i items)
    obtain g f where i: "i = (g, f)" by (cases i)
    then have "parseShapeGroup (group_text g) = group_product g"
      using Cons.prems by (simp add: parseShapeGroup_group_text)
    then show ?case using Cons i by simp
  qed
  finally show ?thesis by (simp add: L_def)
qed

lemma add_line_bare:
  assumes "is_shape_line (Bare toks)"
  shows "add_line tot (line_text (Bare toks)) = jadd tot (group_product toks)"
proof -
  define L where "L = join_with COMMA toks"
  have t: "toks \<noteq> []" "list_all is_dim_token toks" using assms by simp_all
  have c: "LBRACKET \<notin> set L" "RBRACKET \<notin> set L" unfolding L_def using t(2) by (rule tokens_chars)+
  obtain u us where u: "toks = u # us" using t(1) by (cases toks) auto
  then have "\<not> list_all is_ws u" using t(2) dim_token_chars(6) by simp
  then have "\<not> list_all is_ws L" unfolding L_def u by (auto simp: join_with_head)
  then have n: "trim L \<noteq> []" by (rule trim_not_ws)
  have b: "LBRACKET \<notin> set (trim L)" "RBRACKET \<notin> set (trim L)"
    using c trim_subset [of L] by auto
  have "group_dims (trim L) = map dimension toks"
    using n t(2) by (simp add: group_dims_trim [symmetric] L_def group_dims_tokens)
  then have "parseShapeGroup (LBRACKET # trim L @ [RBRACKET]) = group_product toks"
    using b(2) t(1) by (simp add: parseShapeGroup_def group_content_bracketed group_product_def)
  then have "add_line tot L = jadd tot (group_product toks)"
    using n b(1) by (simp add: add_line_def match_groups_no_lbracket)
  then show ?thesis by (simp add: L_def)
qed

lemma add_line_shape_line:
  "is_shape_line l \<Longrightarrow>
   add_line tot (line_text l) = foldl (\<lambda>tot g. jadd tot (group_product g)) tot (line_groups l)"
  by (cases l) (simp_all only: add_line_bracketed add_line_bare line_groups.simps foldl.simps)

subsection \<open>Lines of a text\<close>

lemma lines_from_line:
  "LF \<notin> set l \<Longrightarrow> CR \<notin> set l \<Longrightarrow> lines_from p (l @ rest) = lines_from (rev l @ p) rest"
proof (induction l arbitrary: p)
  case Nil
  show ?case by simp
next
  case (Cons c l)
  then have "nl_match (c # l @ rest) = None" by (simp add: nl_match_def)
  then have "lines_from p ((c # l) @ rest) = lines_from (c # p) (l @ rest)"
    by (subst lines_from.simps) simp
  then show ?case using Cons by simp
qed

lemma lines_from_lf: "lines_from p (LF # rest) = rev p # lines_from [] rest"
  by (subst lines_from.simps) (simp add: nl_match_def)

lemma lines_from_join:
  "ls \<noteq> [] \<Longrightarrow> list_all (\<lambda>l. LF \<notin> set l \<and> CR \<notin> set l) ls \<Longrightarrow>
   lines_from [] (join_with LF ls) = ls"
proof (induction ls)
  case Nil
  then show ?case by simp
next
  case (Cons l ls)
  have l: "LF \<notin> set l" "CR \<notin> set l" using Cons.prems by simp_all
  show ?case
  proof (cases "ls = []")
    case True
    then show ?thesis using lines_from_line [OF l, of "[]" "[]"] by simp
  next
    case False
    have "lines_from [] (join_with LF (l # ls)) = lines_from (rev l) (LF # join_with LF ls)"
      using False lines_from_line [OF l, of "[]"] by (simp add: join_with_head)
    also have "\<dots> = l # lines_from [] (join_with LF ls)"
      by (simp add: lines_from_lf)
    finally show ?thesis using Cons False by simp
  qed
qed

lemma sumShapes_Some: "sumShapes (Some t) = foldl add_line (Fin 0) (split_lines t)"
proof (cases "t = []")
  case True
  then show ?thesis by (simp add: sumShapes_def split_lines_def add_line_def trim_def)
next
  case False
  then show ?thesis by (simp add: sumShapes_def)
qed

lemma filler_chars: "is_filler f \<Longrightarrow> LF \<notin> set f \<and> CR \<notin> set f"
  by (auto simp: is_filler_def list_all_iff)

lemma line_text_chars:
  assumes "is_shape_line l"
  shows "LF \<notin> set (line_text l) \<and> CR \<notin> set (line_text l)"
proof (cases l)
  case (Bare toks)
  then show ?thesis using assms tokens_chars(3,4) [of toks] by simp
next
  case (Bracketed lead items)
  have it: "list_all (\<lambda>(g, f). list_all is_dim_token g \<and> is_filler f) items"
    using assms Bracketed by simp
  then have "LF \<notin> set (concat (map (\<lambda>(g, f). group_text g @ f) items)) \<and>
      CR \<notin> set (concat (map (\<lambda>(g, f). group_text g @ f) items))"
  proof (induction items)
    case Nil
    then show ?case by simp
  next
    case (Cons i items)
    obtain g f where i: "i = (g, f)" by (cases i)
    have "LF \<notin> set (group_text g) \<and> CR \<notin> set (group_text g)"
      using Cons.prems i tokens_chars(3,4) [of g] by (simp add: group_text_def)
    moreover have "LF \<notin> set f \<and> CR \<notin> set f" using Cons.prems i by (simp add: filler_chars)
    ultimately show ?case using Cons i by simp
  qed
  moreover have "LF \<notin> set lead \<and> CR \<notin> set lead"
    using assms Bracketed by (simp add: filler_chars)
  ultimately show ?thesis using Bracketed by simp
qed

lemma foldl_add_line:
  "list_all is_shape_line ls \<Longrightarrow>
   foldl add_line tot (map line_text ls) =
   foldl (\<lambda>tot g. jadd tot (group_product g)) tot (concat (map line_groups ls))"
  by (induction ls arbitrary: tot) (simp_all add: add_line_shape_line)

lemma sumShapes_shape_text:
  assumes "list_all is_shape_line ls"
  shows "sumShapes (Some (shape_text ls)) =
         foldl (\<lambda>tot g. jadd tot (group_product g)) (Fin 0) (concat (map line_groups ls))"
proof (cases "ls = []")
  case True
  then show ?thesis by (simp add: shape_text_def sumShapes_def)
next
  case False
  have "list_all (\<lambda>l. LF \<notin> set l \<and> CR \<notin> set l) (map line_text ls)"
    using assms line_text_chars by (simp add: list_all_iff)
  then have "split_lines (shape_text ls) = map line_text ls"
    using False by (simp add: split_lines_def shape_text_def lines_from_join)
  then show ?thesis using assms by (simp only: sumShapes_Some foldl_add_line)
qed

subsection \<open>Exact sums of products\<close>

lemma normalizeNumStr_digits: "list_all is_digit t \<Longrightarrow> normalizeNumStr t = t"
proof -
  assume a: "list_all is_digit t"
  have "\<And>c. is_digit c \<Longrightarrow> \<not> (c = 160 \<or> c = 8239 \<or> c = 8201 \<or> is_ws c \<or> c = UNDERSCORE)"
    by (auto simp: is_digit_def is_ws_def)
  then have 1: "filter (\<lambda>c. \<not> (c = 160 \<or> c = 8239 \<or> c = 8201 \<or> is_ws c \<or> c = UNDERSCORE)) t = t"
    using a by (induction t) auto
  have "\<And>c. is_digit c \<Longrightarrow> \<not> (c = COMMA \<or> c = APOSTROPHE)"
    by (auto simp: is_digit_def)
  then have 2: "filter (\<lambda>c. \<not> (c = COMMA \<or> c = APOSTROPHE)) t = t"
    using a by (induction t) auto
  show ?thesis unfolding normalizeNumStr_def by (simp only: 1 2)
qed

lemma jmul_exact:
  "\<bar>a * b\<bar> \<le> 2 ^ 53 \<Longrightarrow> jmul (Fin (of_int a)) (Fin (of_int b)) = Fin (of_int (a * b))"
  using to_double_safe [of "a * b"] by simp

lemma jadd_exact:
  "\<bar>a + b\<bar> \<le> 2 ^ 53 \<Longrightarrow> jadd (Fin (of_int a)) (Fin (of_int b)) = Fin (of_int (a + b))"
  using to_double_safe [of "a + b"] by simp

lemma dimension_exact:
  assumes "0 \<le> dec_value (normalizeNumStr t)" and "dec_value (normalizeNumStr t) \<le> 2 ^ 53"
  shows "dimension t = Fin (of_int (dec_value (normalizeNumStr t)))"
  using assms to_double_safe [of "dec_value (normalizeNumStr t)"] by (simp add: dimension_def)

lemma prod_list_ge1: "list_all (\<lambda>x. 1 \<le> f x) xs \<Longrightarrow> (1::int) \<le> prod_list (map f xs)"
proof (induction xs)
  case Nil
  then show ?case by simp
next
  case (Cons x xs)
  then have "1 \<le> f x" "1 \<le> prod_list (map f xs)" by simp_all
  then have "1 * 1 \<le> f x * prod_list (map f xs)" by (intro mult_mono) simp_all
  then show ?case by simp
qed

lemma foldl_jmul_exact:
  assumes "list_all (\<lambda>t. 1 \<le> dec_value (normalizeNumStr t)) g" and "1 \<le> a"
    and "a * prod_list (map (\<lambda>t. dec_value (normalizeNumStr t)) g) \<le> 2 ^ 53"
  shows "foldl jmul (Fin (of_int a)) (map dimension g) =
         Fin (of_int (a * prod_list (map (\<lambda>t. dec_value (normalizeNumStr t)) g)))"
  using assms
proof (induction g arbitrary: a)
  case Nil
  then show ?case by simp
next
  case (Cons t g)
  define d where "d = dec_value (normalizeNumStr t)"
  define P where "P = prod_list (map (\<lambda>t. dec_value (normalizeNumStr t)) g)"
  have d: "1 \<le> d" using Cons.prems(1) by (simp add: d_def)
  have P: "1 \<le> P" unfolding P_def using Cons.prems(1) by (intro prod_list_ge1) simp
  have b: "a * d * P \<le> 2 ^ 53" using Cons.prems(3) by (simp add: d_def P_def mult.assoc)
  have ad: "1 \<le> a * d" using mult_mono [of 1 a 1 d] Cons.prems(2) d by simp
  have "a * d * 1 \<le> a * d * P" using ad P by (intro mult_left_mono) simp_all
  then have ad2: "a * d \<le> 2 ^ 53" using b by simp
  have "1 * d \<le> a * d" using Cons.prems(2) d by (intro mult_right_mono) simp_all
  then have d2: "d \<le> 2 ^ 53" using ad2 by simp
  have 1: "dimension t = Fin (of_int d)"
    unfolding d_def using d d2 by (intro dimension_exact) (simp_all add: d_def)
  have 2: "jmul (Fin (of_int a)) (Fin (of_int d)) = Fin (of_int (a * d))"
    using ad ad2 by (intro jmul_exact) simp
  have 3: "foldl jmul (Fin (of_int (a * d))) (map dimension g) = Fin (of_int (a * d * P))"
    unfolding P_def using Cons.prems(1) ad b by (intro Cons.IH) (simp_all add: P_def)
  have "foldl jmul (Fin (of_int a)) (map dimension (t # g)) =
      foldl jmul (jmul (Fin (of_int a)) (dimension t)) (map dimension g)"
    by (simp only: list.map foldl.simps)
  also have "\<dots> = Fin (of_int (a * d * P))" by (simp only: 1 2 3)
  finally have F: "foldl jmul (Fin (of_int a)) (map dimension (t # g)) =
      Fin (of_int (a * d * P))" .
  have E: "a * prod_list (map (\<lambda>t. dec_value (normalizeNumStr t)) (t # g)) = a * d * P"
    by (simp add: d_def P_def mult.assoc)
  show ?case unfolding E by (rule F)
qed

lemma group_product_exact:
  assumes "list_all (\<lambda>t. 0 < dec_value (normalizeNumStr t)) g"
    and "product_of_dimensions g \<le> 2 ^ 53"
  shows "group_product g = Fin (of_int (product_of_dimensions g))"
proof (cases "g = []")
  case True
  then show ?thesis by (simp add: group_product_def product_of_dimensions_def)
next
  case False
  have "list_all (\<lambda>t. 1 \<le> dec_value (normalizeNumStr t)) g"
    using assms(1) by (simp add: list_all_iff int_one_le_iff_zero_less)
  then have "foldl jmul (Fin (of_int 1)) (map dimension g) =
      Fin (of_int (1 * prod_list (map (\<lambda>t. dec_value (normalizeNumStr t)) g)))"
    using assms(2) False by (intro foldl_jmul_exact) (simp_all add: product_of_dimensions_def)
  then show ?thesis using False by (simp add: group_product_def product_of_dimensions_def)
qed

lemma product_of_dimensions_nonneg:
  assumes "list_all (\<lambda>t. 0 < dec_value (normalizeNumStr t)) g"
  shows "0 \<le> product_of_dimensions g"
proof -
  have "list_all (\<lambda>t. 1 \<le> dec_value (normalizeNumStr t)) g"
    using assms by (simp add: list_all_iff int_one_le_iff_zero_less)
  then have "1 \<le> prod_list (map (\<lambda>t. dec_value (normalizeNumStr t)) g)" by (rule prod_list_ge1)
  then show ?thesis by (simp add: product_of_dimensions_def)
qed

lemma sum_of_products_nonneg: "positive_dimensions gs \<Longrightarrow> 0 \<le> sum_of_products gs"
  by (induction gs)
    (simp_all add: sum_of_products_def positive_dimensions_def product_of_dimensions_nonneg)

lemma foldl_jadd_exact:
  assumes "positive_dimensions gs" and "0 \<le> s" and "s + sum_of_products gs \<le> 2 ^ 53"
  shows "foldl (\<lambda>tot g. jadd tot (group_product g)) (Fin (of_int s)) gs =
         Fin (of_int (s + sum_of_products gs))"
  using assms
proof (induction gs arbitrary: s)
  case Nil
  then show ?case by (simp add: sum_of_products_def)
next
  case (Cons g gs)
  define p where "p = product_of_dimensions g"
  have g: "list_all (\<lambda>t. 0 < dec_value (normalizeNumStr t)) g" and gs: "positive_dimensions gs"
    using Cons.prems(1) by (simp_all add: positive_dimensions_def)
  have p: "0 \<le> p" unfolding p_def using g by (rule product_of_dimensions_nonneg)
  have r: "0 \<le> sum_of_products gs" using gs by (rule sum_of_products_nonneg)
  have b: "s + p + sum_of_products gs \<le> 2 ^ 53"
    using Cons.prems(3) by (simp add: sum_of_products_def p_def)
  have 1: "group_product g = Fin (of_int p)"
    unfolding p_def using g b r Cons.prems(2) p by (intro group_product_exact) (simp_all add: p_def)
  have 2: "jadd (Fin (of_int s)) (Fin (of_int p)) = Fin (of_int (s + p))"
    using b r p Cons.prems(2) by (intro jadd_exact) simp
  have 3: "foldl (\<lambda>tot g. jadd tot (group_product g)) (Fin (of_int (s + p))) gs =
      Fin (of_int (s + p + sum_of_products gs))"
    using gs b p Cons.prems(2) by (intro Cons.IH) simp_all
  have "foldl (\<lambda>tot g. jadd tot (group_product g)) (Fin (of_int s)) (g # gs) =
      foldl (\<lambda>tot g. jadd tot (group_product g))
        (jadd (Fin (of_int s)) (group_product g)) gs"
    by (simp only: foldl.simps)
  also have "\<dots> = Fin (of_int (s + p + sum_of_products gs))" by (simp only: 1 2 3)
  finally have F: "foldl (\<lambda>tot g. jadd tot (group_product g)) (Fin (of_int s)) (g # gs) =
      Fin (of_int (s + p + sum_of_products gs))" .
  have E: "s + sum_of_products (g # gs) = s + p + sum_of_products gs"
    by (simp add: sum_of_products_def p_def)
  show ?case unfolding E by (rule F)
qed

lemma sumShapes_exact:
  assumes "list_all is_shape_line ls"
    and "positive_dimensions (concat (map line_groups ls))"
    and "sum_of_products (concat (map line_groups ls)) \<le> 2 ^ 53"
  shows "sumShapes (Some (shape_text ls)) =
         Fin (of_int (sum_of_products (concat (map line_groups ls))))"
proof -
  have "foldl (\<lambda>tot g. jadd tot (group_product g)) (Fin (of_int 0))
      (concat (map line_groups ls)) =
      Fin (of_int (0 + sum_of_products (concat (map line_groups ls))))"
    using assms(2,3) by (intro foldl_jadd_exact) simp_all
  then show ?thesis using sumShapes_shape_text [OF assms(1)] by simp
qed

text \<open>The count of 310 digits as a dimension.\<close>

lemma huge_count_token: "is_dim_token huge_count"
proof -
  have d: "list_all is_digit huge_count"
    by (simp add: huge_count_def is_digit_def list_all_iff)
  then have "normalizeNumStr huge_count = huge_count" by (rule normalizeNumStr_digits)
  moreover have "huge_count \<noteq> []" by (simp add: huge_count_def)
  moreover have "list_all (\<lambda>c. c \<noteq> COMMA \<and> c \<noteq> LBRACKET \<and> c \<noteq> RBRACKET \<and> c \<noteq> LF \<and> c \<noteq> CR)
      huge_count"
    by (simp add: huge_count_def list_all_iff)
  ultimately show ?thesis using d by (simp add: is_dim_token_def is_number_token_def)
qed

lemma dimension_huge_count: "dimension huge_count = Fin 0"
proof -
  have d: "list_all is_digit huge_count"
    by (simp add: huge_count_def is_digit_def list_all_iff)
  then have n: "normalizeNumStr huge_count = huge_count" by (rule normalizeNumStr_digits)
  have "to_double (of_int (10 ^ 309)) = PInf" by (rule to_double_overflow) simp
  then show ?thesis by (simp add: dimension_def n dec_value_huge_count)
qed

section \<open>Lemmas on the size of the results\<close>

text \<open>What the parsers return is an integer when it is finite.\<close>

lemma integer_valued_parseInt10: "integer_valued (parseInt10 s)"
  by (simp add: parseInt10_def Let_def)

lemma integer_valued_int_field: "integer_valued (int_field x)"
  using integer_valued_parseInt10 [of "str_or x (js ''0'')"]
  by (simp add: int_field_def num_or_zero_def)

lemma integer_valued_dim_value: "integer_valued (dim_value d)"
  using integer_valued_parseInt10 [of "normalizeNumStr d"]
  by (simp add: dim_value_def Let_def)

lemma integer_valued_foldl_jmul:
  "integer_valued a \<Longrightarrow> list_all integer_valued xs \<Longrightarrow> integer_valued (foldl jmul a xs)"
  by (induction xs arbitrary: a) (simp_all add: integer_valued_jmul)

lemma integer_valued_parseShapeGroup: "integer_valued (parseShapeGroup g)"
proof -
  have "list_all integer_valued (group_dims (group_content g))"
    by (simp add: group_dims_def list_all_iff integer_valued_dim_value)
  then show ?thesis by (simp add: parseShapeGroup_def Let_def integer_valued_foldl_jmul)
qed

lemma integer_valued_groups:
  "integer_valued tot \<Longrightarrow> integer_valued (foldl (\<lambda>tot g. jadd tot (parseShapeGroup g)) tot gs)"
  by (induction gs arbitrary: tot)
    (simp_all add: integer_valued_jadd integer_valued_parseShapeGroup)

lemma integer_valued_add_line: "integer_valued tot \<Longrightarrow> integer_valued (add_line tot l)"
  by (simp add: add_line_def Let_def integer_valued_groups integer_valued_jadd
      integer_valued_parseShapeGroup)

lemma integer_valued_lines:
  "integer_valued tot \<Longrightarrow> integer_valued (foldl add_line tot ls)"
  by (induction ls arbitrary: tot) (simp_all add: integer_valued_add_line)

lemma integer_valued_sumShapes: "integer_valued (sumShapes t)"
  by (simp add: sumShapes_def integer_valued_lines split: option.split)

lemma mag_add:
  "magnitude_le j a \<Longrightarrow> magnitude_le k b \<Longrightarrow> j < n \<Longrightarrow> k < n \<Longrightarrow> n \<le> 1023 \<Longrightarrow>
   magnitude_le n (jadd a b)"
proof -
  assume a: "magnitude_le j a" "magnitude_le k b" "j < n" "k < n" "n \<le> 1023"
  then obtain m where m: "n = Suc m" by (cases n) simp_all
  from a m have "magnitude_le m a" "magnitude_le m b" "m < 1023"
    by (simp_all add: magnitude_le_mono)
  then show ?thesis unfolding m by (rule magnitude_le_jadd)
qed

lemma mag_sub:
  "magnitude_le j a \<Longrightarrow> magnitude_le k b \<Longrightarrow> j < n \<Longrightarrow> k < n \<Longrightarrow> n \<le> 1023 \<Longrightarrow>
   magnitude_le n (jsub a b)"
  unfolding jsub_def by (rule mag_add [of j a k "jneg b" n]) (simp_all add: magnitude_le_jneg)

lemma mag_mul:
  "magnitude_le j a \<Longrightarrow> magnitude_le k b \<Longrightarrow> j + k \<le> n \<Longrightarrow> n \<le> 1023 \<Longrightarrow>
   magnitude_le n (jmul a b)"
  using magnitude_le_jmul [of j a k b] magnitude_le_mono [of "j + k" "jmul a b" n] by simp

lemma mag_max:
  "magnitude_le j a \<Longrightarrow> magnitude_le k b \<Longrightarrow> j \<le> n \<Longrightarrow> k \<le> n \<Longrightarrow> magnitude_le n (jmax a b)"
  by (simp add: magnitude_le_jmax magnitude_le_mono)

lemma mag_min:
  "magnitude_le j a \<Longrightarrow> magnitude_le k b \<Longrightarrow> j \<le> n \<Longrightarrow> k \<le> n \<Longrightarrow> magnitude_le n (jmin a b)"
  by (simp add: magnitude_le_jmin magnitude_le_mono)

lemma mag_div:
  assumes "magnitude_le j a" and "integer_valued b" and "jgt b (Fin 0)" and "is_fin b"
    and "j \<le> 1023"
  shows "magnitude_le j (jdiv a b)"
proof -
  obtain q where "b = Fin q" "1 \<le> q" using integer_valued_pos [OF assms(2,3,4)] by blast
  then show ?thesis using assms(1,5) by (simp add: magnitude_le_jdiv)
qed

lemma mag_zero [simp]: "magnitude_le k (Fin 0)"
  by simp

lemma mag_hundred: "magnitude_le 7 (Fin 100)"
  by simp

lemma computeResults_fields:
  fixes input
  defines "r \<equiv> computeResults input"
  shows "denseLayers r = int_field (dense_layers input)"
    and "moeLayers r = int_field (moe_layers input)"
    and "expertsPer r = int_field (experts_per_layer input)"
    and "activeExperts r = int_field (active_experts input)"
    and "expertsIncludeDim r = experts_include_dim input"
    and "hasShared r = has_shared_expert input"
    and "sharedScope r = str_or (shared_expert_scope input) (js ''per_layer'')"
    and "embedCount r = sumShapes (embedding_shapes input)"
    and "preFirstCount r = sumShapes (pre_first_norms input)"
    and "dNorms r = sumShapes (dense_norms input)"
    and "dAttn r = sumShapes (dense_attn input)"
    and "dFfn r = sumShapes (dense_ffn input)"
    and "dPerLayer r = jadd (jadd (dNorms r) (dAttn r)) (dFfn r)"
    and "mAttn r = sumShapes (moe_attn input)"
    and "mNormsTrans r = sumShapes (moe_transitional input)"
    and "mSharedFfn r = sumShapes (moe_shared_ffn input)"
    and "mExpertsInput r = sumShapes (moe_experts input)"
    and "sharedExpertParams r = (if (hasShared r) then sumShapes (shared_expert_tensors input) else Fin 0)"
    and "sharedPerLayer r = (if (hasShared r) then (if (sharedScope r) = js ''per_layer'' then (sharedExpertParams r) else (if jgt (moeLayers r) (Fin 0) then jdiv (sharedExpertParams r) (moeLayers r) else Fin 0)) else Fin 0)"
    and "mAlwaysPerLayer r = jadd (jadd (jadd (mNormsTrans r) (mAttn r)) (mSharedFfn r)) (sharedPerLayer r)"
    and "denseTotal r = jmul (denseLayers r) (dPerLayer r)"
    and "expertsPerLayerTotal r = (if (expertsIncludeDim r) then (mExpertsInput r) else jmul (mExpertsInput r) (expertsPer r))"
    and "moeExpertTotal r = jmul (moeLayers r) (expertsPerLayerTotal r)"
    and "sharedExpertTotal r = (if (hasShared r) then (if (sharedScope r) = js ''per_layer'' then jmul (moeLayers r) (sharedExpertParams r) else (sharedExpertParams r)) else Fin 0)"
    and "moeTotal r = jadd (jmul (moeLayers r) (mAlwaysPerLayer r)) (moeExpertTotal r)"
    and "totalParams r = jadd (jadd (jadd (embedCount r) (preFirstCount r)) (denseTotal r)) (moeTotal r)"
    and "denseActive r = jadd (jadd (embedCount r) (preFirstCount r)) (denseTotal r)"
    and "activeExpertsClamped r = jmax (Fin 0) (jmin (activeExperts r) (expertsPer r))"
    and "expertsActivePerLayer r = (if (expertsIncludeDim r) then (if jgt (expertsPer r) (Fin 0) then jmul (mExpertsInput r) (jdiv (activeExpertsClamped r) (expertsPer r)) else Fin 0) else jmul (mExpertsInput r) (activeExpertsClamped r))"
    and "moeActive r = jmul (moeLayers r) (jadd (mAlwaysPerLayer r) (expertsActivePerLayer r))"
    and "totalActive r = jadd (denseActive r) (moeActive r)"
    and "denseActivePct r = (if jgt (totalActive r) (Fin 0) then jdiv (jmul (Fin 100) (denseActive r)) (totalActive r) else Fin 0)"
    and "moeActivePct r = (if jgt (totalActive r) (Fin 0) then jdiv (jmul (Fin 100) (moeActive r)) (totalActive r) else Fin 0)"
    and "moeInactivePerToken r = jmul (moeLayers r) (jmax (Fin 0) (jsub (expertsPerLayerTotal r) (expertsActivePerLayer r)))"
    and "totalMlp r = jadd (jadd (jmul (denseLayers r) (dFfn r)) (jmul (moeLayers r) (jadd (mSharedFfn r) (expertsPerLayerTotal r)))) (sharedExpertTotal r)"
    and "totalAttn r = jadd (jmul (denseLayers r) (dAttn r)) (jmul (moeLayers r) (mAttn r))"
    and "moeAlwaysTotal r = jmul (moeLayers r) (mAlwaysPerLayer r)"
    and "totalAlwaysActive r = jadd (denseActive r) (moeAlwaysTotal r)"
    and "alwaysActivePct r = (if jgt (totalActive r) (Fin 0) then jdiv (jmul (Fin 100) (totalAlwaysActive r)) (totalActive r) else Fin 0)"
    and "moeExpertsOnly r = jmax (Fin 0) (jsub (moeActive r) (moeAlwaysTotal r))"
    and "moeExpertsPct r = (if jgt (totalActive r) (Fin 0) then jdiv (jmul (Fin 100) (moeExpertsOnly r)) (totalActive r) else Fin 0)"
    and "totalLayersComputed r = jadd (denseLayers r) (moeLayers r)"
  unfolding r_def computeResults_def Let_def by (simp_all only: param_result.select_convs)

lemma moderate_fields:
  fixes input
  defines "r \<equiv> computeResults input"
  assumes "moderate input"
  shows "magnitude_le 300 (denseLayers r)" and "magnitude_le 300 (moeLayers r)"
    and "magnitude_le 300 (expertsPer r)" and "magnitude_le 300 (activeExperts r)"
    and "magnitude_le 300 (embedCount r)" and "magnitude_le 300 (preFirstCount r)"
    and "magnitude_le 300 (dNorms r)" and "magnitude_le 300 (dAttn r)"
    and "magnitude_le 300 (dFfn r)" and "magnitude_le 300 (mAttn r)"
    and "magnitude_le 300 (mNormsTrans r)" and "magnitude_le 300 (mSharedFfn r)"
    and "magnitude_le 300 (mExpertsInput r)" and "magnitude_le 300 (sharedExpertParams r)"
    and "magnitude_le 302 (dPerLayer r)" and "magnitude_le 300 (sharedPerLayer r)"
    and "magnitude_le 303 (mAlwaysPerLayer r)" and "magnitude_le 602 (denseTotal r)"
    and "magnitude_le 600 (expertsPerLayerTotal r)" and "magnitude_le 603 (denseActive r)"
    and "magnitude_le 300 (activeExpertsClamped r)"
    and "magnitude_le 600 (expertsActivePerLayer r)"
proof -
  note f = computeResults_fields [of input, folded r_def]
  have b: "list_all (magnitude_le 300) (parsed_values input)"
    using assms(2) by (simp add: moderate_def)
  show dl: "magnitude_le 300 (denseLayers r)" and ml: "magnitude_le 300 (moeLayers r)"
    and ep: "magnitude_le 300 (expertsPer r)" and ae: "magnitude_le 300 (activeExperts r)"
    and em: "magnitude_le 300 (embedCount r)" and pf: "magnitude_le 300 (preFirstCount r)"
    and dn: "magnitude_le 300 (dNorms r)" and da: "magnitude_le 300 (dAttn r)"
    and df: "magnitude_le 300 (dFfn r)" and ma: "magnitude_le 300 (mAttn r)"
    and mn: "magnitude_le 300 (mNormsTrans r)" and ms: "magnitude_le 300 (mSharedFfn r)"
    and me: "magnitude_le 300 (mExpertsInput r)"
    and sp: "magnitude_le 300 (sharedExpertParams r)"
    unfolding f(1-4,6,8-12,14-18) using b by (simp_all add: parsed_values_def)
  have mli: "integer_valued (moeLayers r)" "integer_valued (expertsPer r)"
    unfolding f(2,3) by (rule integer_valued_int_field)+
  have mlf: "is_fin (moeLayers r)" "is_fin (expertsPer r)"
    using ml ep by (simp_all add: magnitude_le_is_fin)
  have "magnitude_le 301 (jadd (dNorms r) (dAttn r))" using dn da by (rule mag_add) simp_all
  then show dp: "magnitude_le 302 (dPerLayer r)"
    unfolding f(13) using df by (rule mag_add) simp_all
  show sl: "magnitude_le 300 (sharedPerLayer r)"
    unfolding f(19) using sp mli(1) mlf(1) by (auto simp: mag_div)
  have "magnitude_le 301 (jadd (mNormsTrans r) (mAttn r))" using mn ma by (rule mag_add) simp_all
  then have "magnitude_le 302 (jadd (jadd (mNormsTrans r) (mAttn r)) (mSharedFfn r))"
    using ms by (rule mag_add) simp_all
  then show "magnitude_le 303 (mAlwaysPerLayer r)"
    unfolding f(20) using sl by (rule mag_add) simp_all
  show dt: "magnitude_le 602 (denseTotal r)"
    unfolding f(21) using dl dp by (rule mag_mul) simp_all
  have "magnitude_le 600 (jmul (mExpertsInput r) (expertsPer r))"
    using me ep by (rule mag_mul) simp_all
  then show "magnitude_le 600 (expertsPerLayerTotal r)"
    unfolding f(22) using me by (simp add: magnitude_le_mono)
  have "magnitude_le 301 (jadd (embedCount r) (preFirstCount r))"
    using em pf by (rule mag_add) simp_all
  then show "magnitude_le 603 (denseActive r)"
    unfolding f(27) using dt by (rule mag_add) simp_all
  have "magnitude_le 300 (jmin (activeExperts r) (expertsPer r))"
    using ae ep by (rule mag_min) simp_all
  then show ac: "magnitude_le 300 (activeExpertsClamped r)"
    unfolding f(28) using mag_max [of 0 "Fin 0" 300 _ 300] by simp
  have q: "jgt (expertsPer r) (Fin 0) \<Longrightarrow>
      magnitude_le 300 (jdiv (activeExpertsClamped r) (expertsPer r))"
    using ac mli(2) mlf(2) by (simp add: mag_div)
  have 1: "jgt (expertsPer r) (Fin 0) \<Longrightarrow>
      magnitude_le 600 (jmul (mExpertsInput r) (jdiv (activeExpertsClamped r) (expertsPer r)))"
    using me q by (rule mag_mul) simp_all
  have 2: "magnitude_le 600 (jmul (mExpertsInput r) (activeExpertsClamped r))"
    using me ac by (rule mag_mul) simp_all
  show "magnitude_le 600 (expertsActivePerLayer r)"
    unfolding f(29) using 1 2 by simp
qed

lemma moderate_total:
  assumes "moderate input"
  shows "is_fin (totalParams (computeResults input))"
proof -
  define r where "r = computeResults input"
  note f = computeResults_fields [of input, folded r_def]
  note m = moderate_fields [OF assms, folded r_def]
  have 1: "magnitude_le 900 (moeExpertTotal r)"
    unfolding f(23) using m(2) m(19) by (rule mag_mul) simp_all
  have "magnitude_le 603 (jmul (moeLayers r) (mAlwaysPerLayer r))"
    using m(2) m(17) by (rule mag_mul) simp_all
  then have 2: "magnitude_le 901 (moeTotal r)"
    unfolding f(25) using 1 by (rule mag_add) simp_all
  have "magnitude_le 301 (jadd (embedCount r) (preFirstCount r))"
    using m(5) m(6) by (rule mag_add) simp_all
  then have "magnitude_le 603 (jadd (jadd (embedCount r) (preFirstCount r)) (denseTotal r))"
    using m(18) by (rule mag_add) simp_all
  then have "magnitude_le 902 (totalParams r)"
    unfolding f(26) using 2 by (rule mag_add) simp_all
  then show ?thesis unfolding r_def by (rule magnitude_le_is_fin)
qed

lemma integer_valued_denseActive: "integer_valued (denseActive (computeResults input))"
  unfolding computeResults_fields(27) computeResults_fields(21) computeResults_fields(13)
    computeResults_fields(1,8-12)
  by (intro integer_valued_jadd integer_valued_jmul integer_valued_sumShapes
      integer_valued_int_field)

lemma mag_add_zero:
  "magnitude_le j a \<Longrightarrow> j < n \<Longrightarrow> n \<le> 1023 \<Longrightarrow> magnitude_le n (jadd a (Fin 0))"
  using mag_add [of j a 0 "Fin 0" n] by simp

lemma moderate_no_moe_layers:
  assumes "moderate input" and "int_field (moe_layers input) = Fin 0"
  shows "list_all is_fin (numeric_fields (computeResults input))"
proof -
  define r where "r = computeResults input"
  note f = computeResults_fields [of input, folded r_def]
  note m = moderate_fields [OF assms(1), folded r_def]
  note fin = magnitude_le_is_fin
  have z: "moeLayers r = Fin 0" unfolding f(2) by (rule assms(2))
  have zero: "jmul (Fin 0) v = Fin 0" if "magnitude_le k v" for k v
    using that by (rule jmul_zero_left)
  have met: "moeExpertTotal r = Fin 0" unfolding f(23) z using m(19) by (rule zero)
  have "magnitude_le 300 (jmul (Fin 0) (sharedExpertParams r))"
    using zero [OF m(14)] by simp
  then have set: "magnitude_le 300 (sharedExpertTotal r)"
    unfolding f(24) z using m(14) by simp
  have mt: "moeTotal r = Fin 0" unfolding f(25) z met using zero [OF m(17)] by simp
  have tp: "magnitude_le 604 (totalParams r)"
    unfolding f(26) f(27) [symmetric] mt using m(20) by (rule mag_add_zero) simp_all
  have "magnitude_le 601 (jadd (mAlwaysPerLayer r) (expertsActivePerLayer r))"
    using m(17) m(22) by (rule mag_add) simp_all
  then have mac: "moeActive r = Fin 0" unfolding f(30) z by (rule zero)
  have ta: "magnitude_le 604 (totalActive r)"
    unfolding f(31) mac using m(20) by (rule mag_add_zero) simp_all
  have "integer_valued (denseActive r)" unfolding r_def by (rule integer_valued_denseActive)
  then have tai: "integer_valued (totalActive r)"
    unfolding f(31) mac by (intro integer_valued_jadd) simp_all
  have taf: "is_fin (totalActive r)" using ta by (rule fin)
  have pct: "magnitude_le 611 (if jgt (totalActive r) (Fin 0)
      then jdiv (jmul (Fin 100) x) (totalActive r) else Fin 0)"
    if "magnitude_le 604 x" for x
  proof (cases "jgt (totalActive r) (Fin 0)")
    case True
    have "magnitude_le 611 (jmul (Fin 100) x)" using mag_hundred that by (rule mag_mul) simp_all
    then have "magnitude_le 611 (jdiv (jmul (Fin 100) x) (totalActive r))"
      using tai True taf by (rule mag_div) simp
    then show ?thesis using True by simp
  next
    case False
    then show ?thesis by simp
  qed
  have dap: "magnitude_le 611 (denseActivePct r)"
    unfolding f(32) using m(20) by (intro pct) (simp add: magnitude_le_mono)
  have map: "magnitude_le 611 (moeActivePct r)"
    unfolding f(33) mac by (intro pct) simp
  have "magnitude_le 601 (jsub (expertsPerLayerTotal r) (expertsActivePerLayer r))"
    using m(19) m(22) by (rule mag_sub) simp_all
  then have "magnitude_le 601
      (jmax (Fin 0) (jsub (expertsPerLayerTotal r) (expertsActivePerLayer r)))"
    using mag_max [of 0 "Fin 0" _ _ 601] by simp
  then have mi: "moeInactivePerToken r = Fin 0" unfolding f(34) z by (rule zero)
  have a1: "magnitude_le 600 (jmul (denseLayers r) (dFfn r))"
    using m(1) m(9) by (rule mag_mul) simp_all
  have "magnitude_le 601 (jadd (mSharedFfn r) (expertsPerLayerTotal r))"
    using m(12) m(19) by (rule mag_add) simp_all
  then have a2: "jmul (Fin 0) (jadd (mSharedFfn r) (expertsPerLayerTotal r)) = Fin 0"
    by (rule zero)
  have "magnitude_le 601 (jadd (jmul (denseLayers r) (dFfn r)) (Fin 0))"
    using a1 by (rule mag_add_zero) simp_all
  then have tm: "magnitude_le 602 (totalMlp r)"
    unfolding f(35) z a2 using set by (rule mag_add) simp_all
  have "magnitude_le 600 (jmul (denseLayers r) (dAttn r))"
    using m(1) m(8) by (rule mag_mul) simp_all
  then have tat: "magnitude_le 601 (totalAttn r)"
    unfolding f(36) z zero [OF m(10)] by (rule mag_add_zero) simp_all
  have mal: "moeAlwaysTotal r = Fin 0" unfolding f(37) z using m(17) by (rule zero)
  have taa: "magnitude_le 604 (totalAlwaysActive r)"
    unfolding f(38) mal using m(20) by (rule mag_add_zero) simp_all
  have aap: "magnitude_le 611 (alwaysActivePct r)"
    unfolding f(39) using taa by (rule pct)
  have meo: "moeExpertsOnly r = Fin 0"
    unfolding f(40) mac mal by (simp add: jsub_def jmax_def)
  have mep: "magnitude_le 611 (moeExpertsPct r)"
    unfolding f(41) meo by (intro pct) simp
  have tl: "magnitude_le 301 (totalLayersComputed r)"
    unfolding f(42) z using m(1) by (rule mag_add_zero) simp_all
  show ?thesis
    unfolding r_def [symmetric] numeric_fields_def
    using m [THEN fin] set [THEN fin] tp [THEN fin] ta [THEN fin] dap [THEN fin]
      map [THEN fin] tm [THEN fin] tat [THEN fin] taa [THEN fin] aap [THEN fin]
      mep [THEN fin] tl [THEN fin]
    by (simp add: met mt mac mi mal meo)
qed

section \<open>The claims\<close>

text \<open>
  C1, as amended. For every input record, the \<open>totalParams\<close> that \<open>computeResults\<close>
  returns is the same double as the returned \<open>denseActive\<close> plus the returned
  \<open>moeTotal\<close> (identity AJ); the two compare equal with \<open>==\<close> exactly when the total
  is not NaN, and they do whenever the parsed counts and shape sums are at most
  \<open>2^300\<close> in absolute value.
\<close>

theorem total_params_identity:
  "totalParams (computeResults input) =
     jadd (denseActive (computeResults input)) (moeTotal (computeResults input)) \<and>
   js_eq (totalParams (computeResults input))
     (jadd (denseActive (computeResults input)) (moeTotal (computeResults input))) =
   (\<not> isNaN (totalParams (computeResults input))) \<and>
   (moderate input \<longrightarrow>
      js_eq (totalParams (computeResults input))
        (jadd (denseActive (computeResults input)) (moeTotal (computeResults input))))"
proof -
  have 1: "totalParams (computeResults input) =
     jadd (denseActive (computeResults input)) (moeTotal (computeResults input))"
    by (simp add: computeResults_def Let_def)
  have "\<not> isNaN (totalParams (computeResults input))" if "moderate input"
    using moderate_total [OF that] by (cases "totalParams (computeResults input)") simp_all
  then show ?thesis using 1 by (simp add: js_eq_def)
qed

text \<open>On the small model the total is 264, the dense part 72 and the MoE part 192.\<close>

theorem total_params_identity_witness:
  "moderate small_model \<and>
   totalParams (computeResults small_model) = Fin 264 \<and>
   denseActive (computeResults small_model) = Fin 72 \<and>
   moeTotal (computeResults small_model) = Fin 192 \<and>
   js_eq (totalParams (computeResults small_model))
     (jadd (denseActive (computeResults small_model)) (moeTotal (computeResults small_model)))"
proof -
  have p: "int_field (Some (js ''2'')) = Fin 2" "int_field (Some (js ''3'')) = Fin 3"
    "int_field (Some (js ''8'')) = Fin 8" "sumShapes (Some (js ''[10,4]'')) = Fin 40"
    "sumShapes (Some (js ''[4,4]'')) = Fin 16" "sumShapes (Some (js ''[4,2]'')) = Fin 8"
    by (simp_all add: parse_eval)
  have 1: "moderate small_model"
    by (simp add: moderate_def parsed_values_def small_model_def empty_form_def p
        int_field_None sumShapes_None)
  note f = computeResults_fields [of small_model]
  have d: "denseActive (computeResults small_model) = Fin 72"
    unfolding f(27) f(21) f(13) f(1) f(8-12)
    by (simp add: small_model_def empty_form_def p sumShapes_None)
  have m: "moeTotal (computeResults small_model) = Fin 192"
    unfolding f(25) f(23) f(22) f(20) f(19) f(2,3,5,6,14-17)
    by (simp add: small_model_def empty_form_def p sumShapes_None)
  have t: "totalParams (computeResults small_model) = Fin 264"
    unfolding f(26) f(27) [symmetric] d m by simp
  show ?thesis using 1 d m t total_params_identity [of small_model]
    by (simp add: js_eq_def)
qed

text \<open>
  C1, as stated, fails. With a dense layer count of 310 digits \<open>parseInt\<close> gives
  \<open>Infinity\<close>; the dense total is \<open>Infinity * 0\<close>, NaN, and so is the total, and
  \<open>NaN == NaN\<close> is false.
\<close>

theorem total_params_identity_counterexample:
  "denseLayers (computeResults overflowing_dense_form) = PInf \<and>
   denseTotal (computeResults overflowing_dense_form) = NaN \<and>
   totalParams (computeResults overflowing_dense_form) = NaN \<and>
   \<not> js_eq (totalParams (computeResults overflowing_dense_form))
     (jadd (denseActive (computeResults overflowing_dense_form))
        (moeTotal (computeResults overflowing_dense_form)))"
proof -
  have 1: "denseLayers (computeResults overflowing_dense_form) = PInf"
    by (simp add: computeResults_def Let_def overflowing_dense_form_def int_field_huge_count)
  have 2: "denseTotal (computeResults overflowing_dense_form) = NaN"
    by (simp add: computeResults_def Let_def overflowing_dense_form_def empty_form_def
        int_field_huge_count sumShapes_None)
  have 3: "totalParams (computeResults overflowing_dense_form) = NaN"
    by (simp add: computeResults_def Let_def overflowing_dense_form_def empty_form_def
        int_field_huge_count sumShapes_None)
  from 1 2 3 show ?thesis by (simp add: js_eq_def)
qed

text \<open>
  C2, as amended. On a text made of lines of bracketed groups of comma-separated decimal
  dimensions, with any text that holds no \<open>[\<close> around the groups, and of bare lines
  of comma-separated dimensions, \<open>sumShapes\<close> returns the sum, over all lines and
  all groups from left to right, of the product of the dimensions of the group, in double
  arithmetic, where a dimension too large for a finite double counts as zero. When the
  dimensions are positive and the exact sum of the products is at most \<open>2^53\<close>, that
  is the exact sum of the products; in particular
  \<open>sumShapes("[2,3]\n[4]") = 2*3 + 4 = 10\<close>.
\<close>

theorem sumShapes_sum_of_products:
  assumes "list_all is_shape_line ls"
  shows "sumShapes (Some (shape_text ls)) =
           foldl (\<lambda>tot g. jadd tot (group_product g)) (Fin 0) (concat (map line_groups ls)) \<and>
         (positive_dimensions (concat (map line_groups ls)) \<and>
          sum_of_products (concat (map line_groups ls)) \<le> 2 ^ 53 \<longrightarrow>
            sumShapes (Some (shape_text ls)) =
              Fin (of_int (sum_of_products (concat (map line_groups ls)))))"
  using sumShapes_shape_text [OF assms] sumShapes_exact [OF assms] by blast

text \<open>The example of the claim: two lines, \<open>[2,3]\<close> and \<open>[4]\<close>.\<close>

theorem sumShapes_sum_of_products_witness:
  "list_all is_shape_line
     [Bracketed [] [([js ''2'', js ''3''], [])], Bracketed [] [([js ''4''], [])]] \<and>
   shape_text [Bracketed [] [([js ''2'', js ''3''], [])], Bracketed [] [([js ''4''], [])]] =
     js ''[2,3]\<newline>[4]'' \<and>
   positive_dimensions [[js ''2'', js ''3''], [js ''4'']] \<and>
   sum_of_products [[js ''2'', js ''3''], [js ''4'']] = 2 * 3 + 4 \<and>
   sumShapes (Some (js ''[2,3]\<newline>[4]'')) = Fin 10"
proof -
  define ls where
    "ls = [Bracketed [] [([js ''2'', js ''3''], [])], Bracketed [] [([js ''4''], [])]]"
  have 1: "list_all is_shape_line ls"
    by (simp add: ls_def is_filler_def is_dim_token_def is_number_token_def normalizeNumStr_def
        is_digit_def is_ws_def js_def)
  have 2: "shape_text ls = js ''[2,3]\<newline>[4]''"
    by (simp add: ls_def shape_text_def group_text_def js_def)
  have 3: "concat (map line_groups ls) = [[js ''2'', js ''3''], [js ''4'']]"
    by (simp add: ls_def)
  have 4: "positive_dimensions [[js ''2'', js ''3''], [js ''4'']]"
    by (simp add: positive_dimensions_def normalizeNumStr_def dec_value_def is_ws_def js_def)
  have 5: "sum_of_products [[js ''2'', js ''3''], [js ''4'']] = 10"
    by (simp add: sum_of_products_def product_of_dimensions_def normalizeNumStr_def
        dec_value_def is_ws_def js_def)
  have 6: "sum_of_products [[js ''2'', js ''3''], [js ''4'']] \<le> 2 ^ 53"
    unfolding 5 by simp
  have "sumShapes (Some (js ''[2,3]\<newline>[4]'')) =
      Fin (of_int (sum_of_products [[js ''2'', js ''3''], [js ''4'']]))"
    using sumShapes_sum_of_products [OF 1] 4 6 unfolding 2 3 by blast
  then have "sumShapes (Some (js ''[2,3]\<newline>[4]'')) = Fin 10"
    unfolding 5 by simp
  then show ?thesis using 1 2 4 5 by (simp add: ls_def)
qed

text \<open>
  C2, as stated, fails. A dimension of 310 digits is \<open>Infinity\<close> for \<open>parseInt\<close>
  and counts as zero: the group of that one dimension gives 0, not \<open>10^309\<close>. And
  the products are rounded: \<open>sumShapes("[94906267,94906267]")\<close> is
  9007199515875288, while the product is 9007199515875289.
\<close>

theorem sum_of_products_counterexample:
  "is_shape_line (Bracketed [] [([huge_count], [])]) \<and>
   shape_text [Bracketed [] [([huge_count], [])]] = LBRACKET # huge_count @ [RBRACKET] \<and>
   sum_of_products [[huge_count]] = 10 ^ 309 \<and>
   sumShapes (Some (LBRACKET # huge_count @ [RBRACKET])) = Fin 0 \<and>
   sum_of_products [[js ''94906267'', js ''94906267'']] = 9007199515875289 \<and>
   sumShapes (Some (js ''[94906267,94906267]'')) = Fin 9007199515875288"
proof -
  have 1: "is_shape_line (Bracketed [] [([huge_count], [])])"
    by (simp add: huge_count_token is_filler_def)
  have 2: "shape_text [Bracketed [] [([huge_count], [])]] = LBRACKET # huge_count @ [RBRACKET]"
    by (simp add: shape_text_def group_text_def)
  have d: "list_all is_digit huge_count"
    by (simp add: huge_count_def is_digit_def list_all_iff)
  then have n: "normalizeNumStr huge_count = huge_count" by (rule normalizeNumStr_digits)
  have 3: "sum_of_products [[huge_count]] = 10 ^ 309"
    by (simp add: sum_of_products_def product_of_dimensions_def n dec_value_huge_count)
  have "sumShapes (Some (shape_text [Bracketed [] [([huge_count], [])]])) =
      foldl (\<lambda>tot g. jadd tot (group_product g)) (Fin 0)
        (concat (map line_groups [Bracketed [] [([huge_count], [])]]))"
    using 1 by (intro sumShapes_shape_text) simp
  then have 4: "sumShapes (Some (LBRACKET # huge_count @ [RBRACKET])) = Fin 0"
    unfolding 2 by (simp add: group_product_def dimension_huge_count)
  have 5: "sum_of_products [[js ''94906267'', js ''94906267'']] = 9007199515875289"
    by (simp add: sum_of_products_def product_of_dimensions_def normalizeNumStr_def
        dec_value_def is_ws_def js_def)
  have 6: "sumShapes (Some (js ''[94906267,94906267]'')) = Fin 9007199515875288"
    by (simp add: parse_eval to_double_rounded to_double_even)
  from 1 2 3 4 5 6 show ?thesis by simp
qed

text \<open>
  C3, as amended. When the parsed \<open>active_experts\<close> exceeds the parsed
  \<open>experts_per_layer\<close>, \<open>computeResults\<close> returns the same record as on the
  input with \<open>active_experts\<close> set equal to \<open>experts_per_layer\<close>, except for
  the field \<open>activeExperts\<close>, which repeats the parsed input and is not clamped.
\<close>

theorem clamp_active_experts:
  "jlt (int_field (experts_per_layer input)) (int_field (active_experts input)) \<Longrightarrow>
   computeResults input =
     (computeResults (input \<lparr> active_experts := experts_per_layer input \<rparr>))
       \<lparr> activeExperts := int_field (active_experts input) \<rparr>"
  by (simp add: computeResults_def Let_def jmin_above)

theorem clamp_active_experts_witness:
  "jlt (int_field (experts_per_layer five_of_two)) (int_field (active_experts five_of_two)) \<and>
   computeResults five_of_two =
     (computeResults (five_of_two \<lparr> active_experts := experts_per_layer five_of_two \<rparr>))
       \<lparr> activeExperts := int_field (active_experts five_of_two) \<rparr>"
proof -
  have h: "jlt (int_field (experts_per_layer five_of_two)) (int_field (active_experts five_of_two))"
    by (simp add: five_of_two_def empty_form_def parse_eval)
  show ?thesis using h clamp_active_experts [OF h] by simp
qed

text \<open>
  C3, as stated, fails: with 5 active experts of 2 the two results differ in
  \<open>activeExperts\<close>, 5 against 2.
\<close>

theorem clamp_active_experts_counterexample:
  "jlt (int_field (experts_per_layer five_of_two)) (int_field (active_experts five_of_two)) \<and>
   activeExperts (computeResults five_of_two) = Fin 5 \<and>
   activeExperts
     (computeResults (five_of_two \<lparr> active_experts := experts_per_layer five_of_two \<rparr>)) = Fin 2 \<and>
   computeResults five_of_two \<noteq>
     computeResults (five_of_two \<lparr> active_experts := experts_per_layer five_of_two \<rparr>)"
proof -
  have e: "activeExperts (computeResults i) = int_field (active_experts i)" for i
    by (simp add: computeResults_def Let_def)
  have a: "int_field (active_experts five_of_two) = Fin 5"
    by (simp add: five_of_two_def empty_form_def parse_eval)
  have b: "int_field (experts_per_layer five_of_two) = Fin 2"
    by (simp add: five_of_two_def empty_form_def parse_eval)
  have 1: "activeExperts (computeResults five_of_two) = Fin 5"
    by (simp add: e a)
  have 2: "activeExperts
      (computeResults (five_of_two \<lparr> active_experts := experts_per_layer five_of_two \<rparr>)) = Fin 2"
    by (simp add: e b)
  have 3: "computeResults five_of_two \<noteq>
      computeResults (five_of_two \<lparr> active_experts := experts_per_layer five_of_two \<rparr>)"
  proof
    assume "computeResults five_of_two =
      computeResults (five_of_two \<lparr> active_experts := experts_per_layer five_of_two \<rparr>)"
    then have "activeExperts (computeResults five_of_two) =
      activeExperts
        (computeResults (five_of_two \<lparr> active_experts := experts_per_layer five_of_two \<rparr>))"
      by simp
    then show False unfolding 1 2 by simp
  qed
  from 1 2 3 a b show ?thesis by simp
qed

text \<open>
  C4, as amended. In the speed calculator, on inputs that pass the validation, a zero
  bandwidth on one of the three paths (GPU 1, GPU 2, system RAM) makes the load time of
  that path infinite, whatever the share that multiplies it. An infinite load time makes
  the total time per token \<open>Infinity\<close> or NaN, never a finite number, and the
  throughput zero: no zero-bandwidth path is left out of a finite total.
\<close>

theorem zero_bandwidth_infinite_total:
  assumes "calculate inp = Inr r"
  shows "(gpu1_bw inp = Fin 0 \<longrightarrow> denseLoadMs r = PInf) \<and>
         (gpu2_bw inp = Fin 0 \<longrightarrow> gpu2MoeMs r = PInf) \<and>
         (system_bw inp = Fin 0 \<longrightarrow> systemMoeMs r = PInf) \<and>
         (denseLoadMs r = PInf \<or> gpu2MoeMs r = PInf \<or> systemMoeMs r = PInf \<longrightarrow>
            (totalMsPerToken r = PInf \<or> totalMsPerToken r = NaN) \<and>
            tokensPerSec r = Fin 0)"
proof -
  have r: "r = derived_values inp" using assms(1) by (rule calculate_Inr)
  note f = derived_values_fields [of inp, folded r]
  have d0: "gpu1_bw inp = Fin 0 \<Longrightarrow> denseLoadMs r = PInf"
    unfolding f(5) by (simp add: jgt_def)
  have g0: "gpu2_bw inp = Fin 0 \<Longrightarrow> gpu2MoeMs r = PInf"
    unfolding f(9) by (simp add: jgt_def)
  have s0: "system_bw inp = Fin 0 \<Longrightarrow> systemMoeMs r = PInf"
    unfolding f(11) by (simp add: jgt_def)
  have t: "(totalMsPerToken r = PInf \<or> totalMsPerToken r = NaN) \<and> tokensPerSec r = Fin 0"
    if "denseLoadMs r = PInf \<or> gpu2MoeMs r = PInf \<or> systemMoeMs r = PInf"
  proof -
    have "totalMsPerToken r = PInf \<or> totalMsPerToken r = NaN"
      unfolding f(12) using that by (rule sum_with_infinite)
    then show ?thesis using f(13) by (auto simp: jgt_def)
  qed
  show ?thesis using d0 g0 s0 t by blast
qed

text \<open>With the three bandwidths zero the three load times and the total are infinite.\<close>

theorem zero_bandwidth_infinite_total_witness:
  "calculate no_bandwidth = Inr (derived_values no_bandwidth) \<and>
   gpu1_bw no_bandwidth = Fin 0 \<and> gpu2_bw no_bandwidth = Fin 0 \<and>
   system_bw no_bandwidth = Fin 0 \<and>
   denseLoadMs (derived_values no_bandwidth) = PInf \<and>
   gpu2MoeMs (derived_values no_bandwidth) = PInf \<and>
   systemMoeMs (derived_values no_bandwidth) = PInf \<and>
   totalMsPerToken (derived_values no_bandwidth) = PInf \<and>
   tokensPerSec (derived_values no_bandwidth) = Fin 0"
proof -
  have 1: "calculate no_bandwidth = Inr (derived_values no_bandwidth)"
    by (rule calculate_valid) (simp add: no_bandwidth_def required_fields_def invalid_field_def)
  have 5: "gpu1_bw no_bandwidth = Fin 0" "gpu2_bw no_bandwidth = Fin 0"
    "system_bw no_bandwidth = Fin 0"
    by (simp_all add: no_bandwidth_def)
  have 6: "totalMsPerToken (derived_values no_bandwidth) =
      jadd (jadd (denseLoadMs (derived_values no_bandwidth))
        (gpu2MoeMs (derived_values no_bandwidth))) (systemMoeMs (derived_values no_bandwidth))"
    by (rule derived_values_fields(12))
  show ?thesis
    using 1 5 6 zero_bandwidth_infinite_total [OF 1] by simp
qed

text \<open>
  C4, as stated, fails in its second part: an infinite load time does not always give an
  infinite total. With \<open>2^1023\<close> active MoE parameters at 16 bits the active MoE size
  overflows to \<open>Infinity\<close>. The share of GPU 2 is 0, so its load time is
  \<open>0 * Infinity\<close>, NaN; the system bandwidth is zero, so the load time from system RAM
  is \<open>Infinity\<close>; the total is NaN.
\<close>

theorem infinite_path_nan_total_counterexample:
  "calculate overflowing_moe = Inr (derived_values overflowing_moe) \<and>
   system_bw overflowing_moe = Fin 0 \<and>
   systemMoeMs (derived_values overflowing_moe) = PInf \<and>
   moeShare (derived_values overflowing_moe) = Fin 0 \<and>
   activeMoeSizeGB (derived_values overflowing_moe) = PInf \<and>
   gpu2MoeMs (derived_values overflowing_moe) = NaN \<and>
   totalMsPerToken (derived_values overflowing_moe) = NaN \<and>
   totalMsPerToken (derived_values overflowing_moe) \<noteq> PInf"
proof -
  note f = derived_values_fields [of overflowing_moe]
  have 1: "calculate overflowing_moe = Inr (derived_values overflowing_moe)"
    by (rule calculate_valid)
      (simp add: overflowing_moe_def required_fields_def invalid_field_def)
  have 2: "system_bw overflowing_moe = Fin 0" by (simp add: overflowing_moe_def)
  have 3: "systemMoeMs (derived_values overflowing_moe) = PInf"
    unfolding f(11) by (simp add: overflowing_moe_def jgt_def)
  have b: "bytesPerParam (derived_values overflowing_moe) = Fin 2"
    unfolding f(2) by (simp add: overflowing_moe_def)
  have tm: "totalMoeParams (derived_values overflowing_moe) = Fin 0"
    unfolding f(1) by (simp add: overflowing_moe_def jsub_def jmax_def)
  have mt: "moeTotalGB (derived_values overflowing_moe) = Fin 0"
    unfolding f(6) tm b by simp
  have 4: "moeShare (derived_values overflowing_moe) = Fin 0"
    unfolding f(7) mt by (simp add: jgt_def)
  have o: "to_double (2 ^ 1023 * 2) = PInf" by (rule to_double_overflow) simp
  have 5: "activeMoeSizeGB (derived_values overflowing_moe) = PInf"
    unfolding f(8) b by (simp add: overflowing_moe_def o inf_of_def del: power_numeral)
  have 6: "gpu2MoeMs (derived_values overflowing_moe) = NaN"
    unfolding f(9) 4 5 by (simp add: overflowing_moe_def jgt_def)
  have d: "denseLoadMs (derived_values overflowing_moe) = Fin 0"
    unfolding f(5) f(4) f(3) b by (simp add: overflowing_moe_def jgt_def num_or_zero_def)
  have 7: "totalMsPerToken (derived_values overflowing_moe) = NaN"
    unfolding f(12) 3 6 d by simp
  from 1 2 3 4 5 6 7 show ?thesis by simp
qed

text \<open>
  C5, as amended. In a group, a dimension token that is not empty and in which
  \<open>parseInt\<close> finds no number once \<open>normalizeNumStr\<close> has removed the separators
  counts as zero: the product of the group is the one with \<open>0\<close> in the place of the
  token. It is zero, or NaN when the product of the dimensions before a zero has
  overflowed.
\<close>

theorem token_without_number_counts_zero:
  assumes "d \<in> set (split_commas (group_content g))" and "d \<noteq> []"
    and "parseInt10 (normalizeNumStr d) = NaN"
  shows "dim_value d = Fin 0 \<and>
         (parseShapeGroup g = Fin 0 \<or> parseShapeGroup g = NaN) \<and>
         parseShapeGroup g =
           foldl jmul (Fin 1)
             (map dim_value
                (map (\<lambda>t. if t = d then js ''0'' else t)
                   (filter (\<lambda>t. t \<noteq> []) (split_commas (group_content g)))))"
proof -
  define toks where "toks = filter (\<lambda>t. t \<noteq> []) (split_commas (group_content g))"
  have d: "d \<in> set toks" using assms(1,2) by (simp add: toks_def)
  have z: "dim_value d = Fin 0" using assms(3) by (simp add: dim_value_def Let_def)
  have m: "map dim_value (map (\<lambda>t. if t = d then js ''0'' else t) toks) = map dim_value toks"
    by (simp add: z dim_value_zero_token)
  have "Fin 0 \<in> set (map dim_value toks)" using d z by force
  moreover have "list_all is_fin (map dim_value toks)"
    by (simp add: list_all_iff is_fin_dim_value)
  ultimately have 1: "foldl jmul (Fin 1) (map dim_value toks) = Fin 0 \<or>
      foldl jmul (Fin 1) (map dim_value toks) = NaN"
    by (rule foldl_jmul_zero)
  have n: "map dim_value toks \<noteq> []" using d by auto
  have g: "parseShapeGroup g = foldl jmul (Fin 1) (map dim_value toks)"
    using n by (simp add: parseShapeGroup_def group_dims_def toks_def [symmetric])
  have e: "foldl jmul (Fin 1)
      (map dim_value (map (\<lambda>t. if t = d then js ''0'' else t) toks)) =
      foldl jmul (Fin 1) (map dim_value toks)"
    by (simp only: m)
  have b: "parseShapeGroup g = Fin 0 \<or> parseShapeGroup g = NaN" using g 1 by simp
  have c: "parseShapeGroup g = foldl jmul (Fin 1)
      (map dim_value (map (\<lambda>t. if t = d then js ''0'' else t) toks))"
    using g e by simp
  show ?thesis using z b c unfolding toks_def by simp
qed

theorem token_without_number_counts_zero_witness:
  "js ''abc'' \<in> set (split_commas (group_content (js ''[abc,2]''))) \<and> js ''abc'' \<noteq> [] \<and>
   parseInt10 (normalizeNumStr (js ''abc'')) = NaN \<and>
   dim_value (js ''abc'') = Fin 0 \<and> parseShapeGroup (js ''[abc,2]'') = Fin 0 \<and>
   parseShapeGroup (js ''[0,2]'') = Fin 0"
proof -
  have 1: "js ''abc'' \<in> set (split_commas (group_content (js ''[abc,2]'')))"
    by (simp add: parse_eval)
  have 2: "js ''abc'' \<noteq> []" by (simp add: js_def)
  have 3: "parseInt10 (normalizeNumStr (js ''abc'')) = NaN" by (simp add: parse_eval)
  have 4: "parseShapeGroup (js ''[abc,2]'') = Fin 0" by (simp add: parse_eval)
  have 5: "parseShapeGroup (js ''[0,2]'') = Fin 0" by (simp add: parse_eval)
  show ?thesis using 1 2 3 4 5 token_without_number_counts_zero [OF 1 2 3] by simp
qed

text \<open>
  C5, as stated, fails. \<open>2x\<close> is not a well-formed integer, yet \<open>parseInt\<close> reads
  the 2 in front: \<open>sumShapes("[2x]") = 2\<close> while \<open>sumShapes("[0]") = 0\<close>. An empty
  token is dropped by \<open>filter(Boolean)\<close> and does not count as zero either:
  \<open>sumShapes("[2,,3]") = 6\<close> while \<open>sumShapes("[2,0,3]") = 0\<close>.
\<close>

theorem malformed_token_counterexample:
  "\<not> well_formed_int (js ''2x'') \<and>
   sumShapes (Some (js ''[2x]'')) = Fin 2 \<and> sumShapes (Some (js ''[0]'')) = Fin 0 \<and>
   \<not> well_formed_int (js []) \<and>
   sumShapes (Some (js ''[2,,3]'')) = Fin 6 \<and> sumShapes (Some (js ''[2,0,3]'')) = Fin 0"
  by (simp add: parse_eval well_formed_int_def)




text \<open>
  C7. In the speed calculator, when one of the eight required fields (GPU 1 VRAM and
  bandwidth, GPU 2 VRAM and bandwidth, system bandwidth, total, dense and active MoE
  parameters) is NaN, as a missing one is, or negative, \<open>calculate\<close> derives nothing
  and returns the one validation message.
\<close>

theorem invalid_field_aborts:
  "list_ex invalid_field (required_fields inp) \<Longrightarrow> calculate inp = Inl FillInAllFields"
  by (simp add: calculate_def required_fields_def invalid_field_def Let_def)

theorem invalid_field_aborts_witness:
  "list_ex invalid_field (required_fields bandwidth_missing) \<and>
   calculate bandwidth_missing = Inl FillInAllFields"
proof -
  have h: "list_ex invalid_field (required_fields bandwidth_missing)"
    by (simp add: bandwidth_missing_def required_fields_def invalid_field_def)
  show ?thesis using h invalid_field_aborts [OF h] by simp
qed

text \<open>
  C8, as amended. In \<open>computeResults\<close>, when the shared expert is enabled, its scope is
  not \<open>per_layer\<close> (as with the scope \<open>total\<close>) and the MoE layer count is zero,
  the shared-expert contribution per layer is zero: the division by the layer count is
  not taken. Every numeric field of the result is then a finite number, as long as the
  parsed counts and shape sums are at most \<open>2^300\<close> in absolute value.
\<close>

theorem shared_total_without_moe_layers:
  assumes "has_shared_expert input"
    and "str_or (shared_expert_scope input) (js ''per_layer'') \<noteq> js ''per_layer''"
    and "int_field (moe_layers input) = Fin 0"
  shows "sharedPerLayer (computeResults input) = Fin 0 \<and>
         (moderate input \<longrightarrow> list_all is_fin (numeric_fields (computeResults input)))"
  using assms moderate_no_moe_layers [of input]
  by (simp add: computeResults_fields(19) computeResults_fields(2,6,7) jgt_def)

theorem shared_total_without_moe_layers_witness:
  "has_shared_expert shared_total_no_moe \<and>
   shared_expert_scope shared_total_no_moe = Some (js ''total'') \<and>
   str_or (shared_expert_scope shared_total_no_moe) (js ''per_layer'') \<noteq> js ''per_layer'' \<and>
   int_field (moe_layers shared_total_no_moe) = Fin 0 \<and>
   moderate shared_total_no_moe \<and>
   sumShapes (shared_expert_tensors shared_total_no_moe) = Fin 20 \<and>
   sharedPerLayer (computeResults shared_total_no_moe) = Fin 0 \<and>
   list_all is_fin (numeric_fields (computeResults shared_total_no_moe))"
proof -
  have 1: "has_shared_expert shared_total_no_moe"
    by (simp add: shared_total_no_moe_def)
  have 2: "str_or (shared_expert_scope shared_total_no_moe) (js ''per_layer'') \<noteq>
      js ''per_layer''"
    by (simp add: shared_total_no_moe_def str_or_def js_def)
  have 3: "int_field (moe_layers shared_total_no_moe) = Fin 0"
    by (simp add: shared_total_no_moe_def parse_eval)
  have 4: "sumShapes (shared_expert_tensors shared_total_no_moe) = Fin 20"
    by (simp add: shared_total_no_moe_def parse_eval)
  have 5: "shared_expert_scope shared_total_no_moe = Some (js ''total'')"
    by (simp add: shared_total_no_moe_def)
  have p: "int_field (Some (js ''0'')) = Fin 0" "sumShapes (Some (js ''[4,5]'')) = Fin 20"
    by (simp_all add: parse_eval)
  have 6: "moderate shared_total_no_moe"
    by (simp add: moderate_def parsed_values_def shared_total_no_moe_def empty_form_def p
        int_field_None sumShapes_None)
  show ?thesis
    using 1 2 3 4 5 6 shared_total_without_moe_layers [OF 1 2 3] by simp
qed

text \<open>
  C8, as stated, fails in its last part: the derived fields need not all be well-defined
  numbers. With the scope \<open>total\<close>, no MoE layer and a dense layer count of 310 digits
  the contribution per layer is zero, but \<open>denseLayers\<close> is \<open>Infinity\<close> and the
  dense total is \<open>Infinity * 0\<close>, NaN.
\<close>

theorem shared_total_overflow_counterexample:
  "has_shared_expert shared_total_overflow \<and>
   str_or (shared_expert_scope shared_total_overflow) (js ''per_layer'') \<noteq> js ''per_layer'' \<and>
   int_field (moe_layers shared_total_overflow) = Fin 0 \<and>
   sharedPerLayer (computeResults shared_total_overflow) = Fin 0 \<and>
   denseLayers (computeResults shared_total_overflow) = PInf \<and>
   denseTotal (computeResults shared_total_overflow) = NaN \<and>
   \<not> list_all is_fin (numeric_fields (computeResults shared_total_overflow))"
proof -
  have 1: "has_shared_expert shared_total_overflow"
    by (simp add: shared_total_overflow_def shared_total_no_moe_def)
  have 2: "str_or (shared_expert_scope shared_total_overflow) (js ''per_layer'') \<noteq>
      js ''per_layer''"
    by (simp add: shared_total_overflow_def shared_total_no_moe_def str_or_def js_def)
  have 3: "int_field (moe_layers shared_total_overflow) = Fin 0"
    by (simp add: shared_total_overflow_def shared_total_no_moe_def parse_eval)
  have 4: "sharedPerLayer (computeResults shared_total_overflow) = Fin 0"
    using 1 2 3 by (simp add: computeResults_def Let_def jgt_def)
  have 5: "denseLayers (computeResults shared_total_overflow) = PInf"
    by (simp add: computeResults_def Let_def shared_total_overflow_def int_field_huge_count)
  have 6: "denseTotal (computeResults shared_total_overflow) = NaN"
    by (simp add: computeResults_def Let_def shared_total_overflow_def shared_total_no_moe_def
        empty_form_def int_field_huge_count sumShapes_None)
  have 7: "\<not> list_all is_fin (numeric_fields (computeResults shared_total_overflow))"
    using 5 by (simp add: numeric_fields_def)
  from 1 2 3 4 5 6 7 show ?thesis by simp
qed

text \<open>
  C9. A line of shape text without bracket characters is parsed as one bracketed group:
  for every non-empty line \<open>s\<close> (no line feed) in which no \<open>[\<close> and no \<open>]\<close>
  occurs, \<open>sumShapes(s) = sumShapes("[" + s + "]")\<close>; for example
  \<open>sumShapes("2,3") = 6\<close>.
\<close>

theorem bare_line_as_group:
  assumes "s \<noteq> []" and "LBRACKET \<notin> set s" and "RBRACKET \<notin> set s" and "LF \<notin> set s"
  shows "sumShapes (Some s) = sumShapes (Some ([LBRACKET] @ s @ [RBRACKET]))"
proof -
  have r: "sumShapes (Some ([LBRACKET] @ s @ [RBRACKET])) =
      jadd (Fin 0) (parseShapeGroup (LBRACKET # s @ [RBRACKET]))"
    using assms(3,4) match_groups_bracketed [of s "[]"]
    by (simp add: sumShapes_one_line add_line_def trim_bracketed)
  have rv: "parseShapeGroup (LBRACKET # x @ [RBRACKET]) =
      (if group_dims x = [] then Fin 0 else foldl (\<lambda>a b. jmul a b) (Fin 1) (group_dims x))"
    if "RBRACKET \<notin> set x" for x
    using that by (simp add: parseShapeGroup_def group_content_bracketed)
  show ?thesis
  proof (cases "trim s = []")
    case True
    then have "group_dims s = [Fin 0]" using assms(1) by (simp add: group_dims_all_ws trim_all_ws)
    then have "parseShapeGroup (LBRACKET # s @ [RBRACKET]) = Fin 0"
      using assms(3) by (simp add: rv)
    moreover have "sumShapes (Some s) = Fin 0"
      using assms True by (simp add: sumShapes_one_line add_line_def)
    ultimately show ?thesis using r by simp
  next
    case False
    have b: "LBRACKET \<notin> set (trim s)" "RBRACKET \<notin> set (trim s)"
      using assms(2,3) trim_subset [of s] by auto
    have "sumShapes (Some s) = jadd (Fin 0) (parseShapeGroup (LBRACKET # trim s @ [RBRACKET]))"
      using assms False b by (simp add: sumShapes_one_line add_line_def match_groups_no_lbracket)
    also have "parseShapeGroup (LBRACKET # trim s @ [RBRACKET]) =
        parseShapeGroup (LBRACKET # s @ [RBRACKET])"
      using b(2) assms(3) False by (simp add: rv group_dims_trim)
    finally show ?thesis using r by simp
  qed
qed

theorem bare_line_as_group_witness:
  "js ''2,3'' \<noteq> [] \<and> LBRACKET \<notin> set (js ''2,3'') \<and> RBRACKET \<notin> set (js ''2,3'') \<and>
   LF \<notin> set (js ''2,3'') \<and>
   sumShapes (Some (js ''2,3'')) = Fin 6 \<and>
   sumShapes (Some ([LBRACKET] @ js ''2,3'' @ [RBRACKET])) = Fin 6"
proof -
  have 1: "js ''2,3'' \<noteq> []" by (simp add: js_def)
  have 2: "LBRACKET \<notin> set (js ''2,3'')" by (simp add: js_def)
  have 3: "RBRACKET \<notin> set (js ''2,3'')" by (simp add: js_def)
  have 4: "LF \<notin> set (js ''2,3'')" by (simp add: js_def)
  have 5: "sumShapes (Some (js ''2,3'')) = Fin 6" by (simp add: parse_eval)
  show ?thesis using 1 2 3 4 5 bare_line_as_group [OF 1 2 3 4] by simp
qed

text \<open>
  C10. In the speed calculator, when the three load times are all zero, the total time
  per token is 0 ms and the throughput is 0 tokens per second, not infinite.
\<close>

theorem zero_load_zero_throughput:
  assumes "calculate inp = Inr r"
    and "denseLoadMs r = Fin 0" and "gpu2MoeMs r = Fin 0" and "systemMoeMs r = Fin 0"
  shows "totalMsPerToken r = Fin 0 \<and> tokensPerSec r = Fin 0"
proof -
  have r: "r = derived_values inp" using assms(1) by (rule calculate_Inr)
  note f = derived_values_fields [of inp, folded r]
  have "totalMsPerToken r = Fin 0" unfolding f(12) using assms by simp
  then show ?thesis using f(13) by (simp add: jgt_def)
qed

text \<open>
  The example of the claim: all parameter counts and the KV cache zero, every bandwidth
  positive.
\<close>

theorem zero_load_zero_throughput_witness:
  "calculate nothing_to_load = Inr (derived_values nothing_to_load) \<and>
   denseLoadMs (derived_values nothing_to_load) = Fin 0 \<and>
   gpu2MoeMs (derived_values nothing_to_load) = Fin 0 \<and>
   systemMoeMs (derived_values nothing_to_load) = Fin 0 \<and>
   totalMsPerToken (derived_values nothing_to_load) = Fin 0 \<and>
   tokensPerSec (derived_values nothing_to_load) = Fin 0"
proof -
  note f = derived_values_fields [of nothing_to_load]
  have 1: "calculate nothing_to_load = Inr (derived_values nothing_to_load)"
    by (rule calculate_valid)
      (simp add: nothing_to_load_def required_fields_def invalid_field_def)
  have "is_fin (to_double (4 / 8))" by (rule to_double_finite) simp
  then obtain x where "to_double (4 / 8) = Fin x" by (cases "to_double (4 / 8)") simp_all
  then have b: "bytesPerParam (derived_values nothing_to_load) = Fin x"
    unfolding f(2) by (simp add: nothing_to_load_def)
  have k: "denseKvGB (derived_values nothing_to_load) = Fin 0"
    unfolding f(4) f(3) b by (simp add: nothing_to_load_def num_or_zero_def)
  have 2: "denseLoadMs (derived_values nothing_to_load) = Fin 0"
    unfolding f(5) k by (simp add: nothing_to_load_def jgt_def)
  have a: "activeMoeSizeGB (derived_values nothing_to_load) = Fin 0"
    unfolding f(8) b by (simp add: nothing_to_load_def)
  have tm: "totalMoeParams (derived_values nothing_to_load) = Fin 0"
    unfolding f(1) by (simp add: nothing_to_load_def jsub_def jmax_def)
  have mt: "moeTotalGB (derived_values nothing_to_load) = Fin 0"
    unfolding f(6) tm b by simp
  have m: "moeShare (derived_values nothing_to_load) = Fin 0"
    unfolding f(7) mt by (simp add: jgt_def)
  have 3: "gpu2MoeMs (derived_values nothing_to_load) = Fin 0"
    unfolding f(9) m a by (simp add: nothing_to_load_def jgt_def)
  have 4: "systemMoeMs (derived_values nothing_to_load) = Fin 0"
    unfolding f(11) f(10) m a by (simp add: nothing_to_load_def jgt_def jsub_def)
  show ?thesis using 1 2 3 4 zero_load_zero_throughput [OF 1 2 3 4] by simp
qed

end
